theory Spec2Isabelle
  imports Main "HOL-Library.Sublist" "HOL-Library.Product_Lexorder"
begin

section \<open>Data model\<close>

text \<open>
  The scripts work on JavaScript strings, which are sequences of UTF-16 code units.
  A string is modelled as the list of its code units (natural numbers), and a
  Character of the pipeline, which the code always guards by \<^verbatim>\<open>ch.length === 1\<close>,
  as one code unit.

  A JavaScript \<^verbatim>\<open>Set\<close> iterates in insertion order and holds no duplicates: it is a
  list, extended at the end by \<open>set_add\<close>. A \<^verbatim>\<open>Map\<close> is an association list in
  insertion order of its keys.

  Stroke counts are JavaScript numbers. They are modelled by \<open>int\<close>: the numeric
  replies of the stroke library are taken to be integers (non-finite and fractional
  doubles are outside the model), so \<^verbatim>\<open>Number.isFinite\<close> holds of every number here.
\<close>

type_synonym jschar = nat
type_synonym jsstring = "nat list"
type_synonym charset = "jschar list"
type_synonym strokeMap = "(int \<times> charset) list"

definition set_add :: "'a \<Rightarrow> 'a list \<Rightarrow> 'a list" where
  "set_add x s = (if x \<in> set s then s else s @ [x])"

definition add_all :: "'a list \<Rightarrow> 'a list \<Rightarrow> 'a list" where
  "add_all xs s = fold set_add xs s"

subsection \<open>Character classes\<close>

text \<open>
  \<^verbatim>\<open>\s\<close> of a regular expression and \<^verbatim>\<open>String.prototype.trim\<close> use the same class:
  ECMAScript's WhiteSpace and LineTerminator code points. \<^verbatim>\<open>\d\<close> is the ASCII digits,
  and \<^verbatim>\<open>.\<close> (no \<^verbatim>\<open>s\<close> flag) is every code unit but the four line terminators.
\<close>

definition is_space :: "nat \<Rightarrow> bool" where
  "is_space c = (c = 9 \<or> c = 10 \<or> c = 11 \<or> c = 12 \<or> c = 13 \<or> c = 32 \<or> c = 160
     \<or> c = 5760 \<or> (8192 \<le> c \<and> c \<le> 8202) \<or> c = 8232 \<or> c = 8233 \<or> c = 8239
     \<or> c = 8287 \<or> c = 12288 \<or> c = 65279)"

definition is_line_terminator :: "nat \<Rightarrow> bool" where
  "is_line_terminator c = (c = 10 \<or> c = 13 \<or> c = 8232 \<or> c = 8233)"

definition is_digit :: "nat \<Rightarrow> bool" where
  "is_digit c = (48 \<le> c \<and> c \<le> 57)"

text \<open>The character U+753B, the stroke marker of a body line.\<close>

definition hua :: nat where
  "hua = 30011"

text \<open>\<^verbatim>\<open>isCJK\<close> of analyze-charset.js: the basic block U+4E00 to U+9FFF.\<close>

definition isCJK :: "nat \<Rightarrow> bool" where
  "isCJK cp = (19968 \<le> cp \<and> cp \<le> 40959)"

subsection \<open>String functions of the JavaScript library\<close>

definition trim :: "jsstring \<Rightarrow> jsstring" where
  "trim s = rev (dropWhile is_space (rev (dropWhile is_space s)))"

text \<open>\<^verbatim>\<open>text.split(/\r?\n/)\<close>: a line ends at a line feed, and a carriage return
  right before that line feed belongs to the separator.\<close>

fun split_lines :: "jsstring \<Rightarrow> jsstring list" where
  "split_lines [] = [[]]"
| "split_lines [c] = (if c = 10 then [[], []] else [[c]])"
| "split_lines (c # d # cs) =
     (if c = 10 then [] # split_lines (d # cs)
      else if c = 13 \<and> d = 10 then [] # split_lines cs
      else (case split_lines (d # cs) of [] \<Rightarrow> [[c]] | l # ls \<Rightarrow> (c # l) # ls))"

text \<open>\<^verbatim>\<open>s.split(' ')\<close>, a split at every occurrence of one code unit.\<close>

fun split_on :: "nat \<Rightarrow> jsstring \<Rightarrow> jsstring list" where
  "split_on d [] = [[]]"
| "split_on d (c # cs) =
     (if c = d then [] # split_on d cs
      else (case split_on d cs of [] \<Rightarrow> [[c]] | l # ls \<Rightarrow> (c # l) # ls))"

text \<open>\<^verbatim>\<open>s.replace(/\s+/g, ' ')\<close>: every maximal run of white space becomes one space.\<close>

function collapse_ws :: "jsstring \<Rightarrow> jsstring" where
  "collapse_ws [] = []"
| "collapse_ws (c # cs) =
     (if is_space c then 32 # collapse_ws (dropWhile is_space cs) else c # collapse_ws cs)"
  by pat_completeness auto
termination
  by (relation "measure length") (auto simp: length_dropWhile_le less_Suc_eq_le)

text \<open>\<^verbatim>\<open>t.split(/[\s,]+/g)\<close>: a split at every maximal run of white space and commas.\<close>

definition is_sep :: "nat \<Rightarrow> bool" where
  "is_sep c = (is_space c \<or> c = 44)"

function split_seps :: "jsstring \<Rightarrow> jsstring list" where
  "split_seps [] = [[]]"
| "split_seps (c # cs) =
     (if is_sep c then [] # split_seps (dropWhile is_sep cs)
      else (case split_seps cs of [] \<Rightarrow> [[c]] | l # ls \<Rightarrow> (c # l) # ls))"
  by pat_completeness auto
termination
  by (relation "measure length") (auto simp: length_dropWhile_le less_Suc_eq_le)

text \<open>\<^verbatim>\<open>raw.indexOf(needle)\<close>: the first index at which the needle starts, \<open>None\<close> for
  the result -1.\<close>

fun indexOf :: "jsstring \<Rightarrow> jsstring \<Rightarrow> nat option" where
  "indexOf needle [] = (if needle = [] then Some 0 else None)"
| "indexOf needle (c # cs) =
     (if prefix needle (c # cs) then Some 0 else map_option Suc (indexOf needle cs))"

text \<open>The decimal digits of a natural number.\<close>

function digits_of :: "nat \<Rightarrow> jsstring" where
  "digits_of n = (if n < 10 then [48 + n] else digits_of (n div 10) @ [48 + n mod 10])"
  by pat_completeness auto
termination
  by (relation "measure id") auto

declare digits_of.simps [simp del]

text \<open>
  A JavaScript number is a double. The integers below \<open>2\<^sup>5\<^sup>3\<close> are doubles; from
  there on a double is an integer with 53 significant bits, and \<open>to_double\<close> is the
  double nearest to an integer, a tie going to the even significand (the range of the
  exponent, which ends near \<open>2\<^sup>1\<^sup>0\<^sup>2\<^sup>4\<close>, is left out).
\<close>

function bit_len :: "nat \<Rightarrow> nat" where
  "bit_len n = (if n = 0 then 0 else Suc (bit_len (n div 2)))"
  by pat_completeness auto
termination
  by (relation "measure id") auto

declare bit_len.simps [simp del]

definition to_double :: "nat \<Rightarrow> nat" where
  "to_double n =
     (if n < 9007199254740992 then n
      else (let u = 2 ^ (bit_len n - 53); q = n div u; r = n mod u
            in if 2 * r < u \<or> (2 * r = u \<and> even q) then q * u else (q + 1) * u))"

text \<open>
  The template literal \<^verbatim>\<open>${n}\<close> of line 118 prints a number with \<^verbatim>\<open>Number::toString\<close>:
  it prints the decimal number of fewest significant digits that reads back as the same
  double, of several the one nearest to the number (of two equally near the one with
  the even last digit). Below \<open>2\<^sup>5\<^sup>3\<close> that is the integer itself. \<open>candidate v p\<close> looks
  among the multiples of the power of ten \<open>p\<close> next to \<open>v\<close>, and \<open>shortest\<close> goes from the
  largest power of ten down. An integer that is no double is no number of JavaScript:
  no candidate reads back as it, and it is left as it is.
\<close>

definition candidate :: "nat \<Rightarrow> nat \<Rightarrow> nat option" where
  "candidate v p =
     (let lo = (v div p) * p; hi = lo + p
      in if to_double lo = v \<and> to_double hi = v then
           Some (if v - lo < hi - v then lo
                 else if hi - v < v - lo then hi
                 else if even (v div p) then lo else hi)
         else if to_double lo = v then Some lo
         else if to_double hi = v then Some hi
         else None)"

fun shortest_from :: "nat \<Rightarrow> nat \<Rightarrow> nat" where
  "shortest_from v 0 = (case candidate v 1 of Some w \<Rightarrow> w | None \<Rightarrow> v)"
| "shortest_from v (Suc j) =
     (case candidate v (10 ^ Suc j) of Some w \<Rightarrow> w | None \<Rightarrow> shortest_from v j)"

definition shortest :: "nat \<Rightarrow> nat" where
  "shortest v =
     (if v < 9007199254740992 then v else shortest_from v (length (digits_of v) - 1))"

text \<open>
  The decimal number is printed in plain decimal below \<open>10\<^sup>2\<^sup>1\<close>. From \<open>10\<^sup>2\<^sup>1\<close> on it is
  exponent notation: the digits without their trailing zeros, with a point after the
  first digit when more follow, then \<^verbatim>\<open>e+\<close> and the exponent (the number of digits less
  one) in decimal, as in \<^verbatim>\<open>1e+21\<close> and \<^verbatim>\<open>1.5e+21\<close>. A negative number has \<^verbatim>\<open>-\<close> in front.
\<close>

definition strip_zeros :: "jsstring \<Rightarrow> jsstring" where
  "strip_zeros ds = rev (dropWhile (\<lambda>c. c = 48) (rev ds))"

definition exp_form :: "nat \<Rightarrow> jsstring" where
  "exp_form n =
     (let ds = digits_of n
      in (case strip_zeros ds of
            [] \<Rightarrow> []
          | [d] \<Rightarrow> [d]
          | d # rest \<Rightarrow> d # 46 # rest)
         @ [101, 43] @ digits_of (length ds - 1))"

definition nat_toString :: "nat \<Rightarrow> jsstring" where
  "nat_toString n =
     (let w = shortest n
      in if w < 1000000000000000000000 then digits_of w else exp_form w)"

definition num_toString :: "int \<Rightarrow> jsstring" where
  "num_toString n = (if n < 0 then 45 # nat_toString (nat (- n)) else nat_toString (nat n))"

text \<open>\<^verbatim>\<open>list.join(' ')\<close> on a list of one-unit strings.\<close>

fun join_chars :: "charset \<Rightarrow> jsstring" where
  "join_chars [] = []"
| "join_chars [c] = [c]"
| "join_chars (c # d # cs) = c # 32 # join_chars (d # cs)"

subsection \<open>The stroke library (cnchar), an external collaborator\<close>

text \<open>
  \<^verbatim>\<open>cnchar.stroke(ch)\<close> and \<^verbatim>\<open>cnchar.stroke(ch, 'order')\<close> are library calls; the
  library is not part of the repository, so its replies are parameters. A call may
  raise, return a number, or return something else; the order query may return an
  array, whose elements may be \<^verbatim>\<open>undefined\<close> or \<^verbatim>\<open>null\<close> (reading \<^verbatim>\<open>.length\<close> of
  them raises a TypeError), a string or array (with a length), or a value without a
  \<^verbatim>\<open>length\<close> property. A numeric reply that is \<^verbatim>\<open>NaN\<close> fails the test \<^verbatim>\<open>n > 0\<close> like
  the number 0 does. The library is taken to answer the same question the same way
  within a run.
\<close>

datatype direct_reply = DRaises | DNumber int | DOther

datatype elem = Nullish | Sized nat | Unsized

datatype order_reply = ORaises | OArray "elem list" | ONotArray

record cnchar =
  stroke :: "jschar \<Rightarrow> direct_reply"
  stroke_order :: "jschar \<Rightarrow> order_reply"

section \<open>Stroke classification\<close>

text \<open>
  \<^verbatim>\<open>strokeOf\<close> of extend-charset.js. One \<^verbatim>\<open>try\<close> block holds both queries and the
  \<^verbatim>\<open>catch\<close> returns \<^verbatim>\<open>undefined\<close>; falling off the end of the function returns
  \<^verbatim>\<open>undefined\<close> too. The fallback returns \<^verbatim>\<open>order[0].length\<close>. The result \<open>None\<close> is
  \<^verbatim>\<open>undefined\<close>.
\<close>

definition order_first_length :: "order_reply \<Rightarrow> int option" where
  "order_first_length r =
     (case r of
        ORaises \<Rightarrow> None
      | ONotArray \<Rightarrow> None
      | OArray [] \<Rightarrow> None
      | OArray (x # xs) \<Rightarrow>
          (case x of Nullish \<Rightarrow> None | Unsized \<Rightarrow> None | Sized k \<Rightarrow> Some (int k)))"

definition strokeOf :: "cnchar \<Rightarrow> jschar \<Rightarrow> int option" where
  "strokeOf lib ch =
     (case stroke lib ch of
        DRaises \<Rightarrow> None
      | DNumber n \<Rightarrow> (if n > 0 then Some n else order_first_length (stroke_order lib ch))
      | DOther \<Rightarrow> order_first_length (stroke_order lib ch))"

text \<open>
  \<^verbatim>\<open>strokeOf\<close> of analyze-charset.js. Each query has its own \<^verbatim>\<open>try\<close> block with an
  empty \<^verbatim>\<open>catch\<close>, the fallback returns \<^verbatim>\<open>order.length\<close>, and the last line returns
  \<^verbatim>\<open>null\<close>, here \<open>None\<close>. Its extra test \<^verbatim>\<open>Number.isFinite(s)\<close> is true of every
  number of the model.
\<close>

definition analyze_direct :: "direct_reply \<Rightarrow> int option" where
  "analyze_direct r =
     (case r of
        DRaises \<Rightarrow> None
      | DNumber s \<Rightarrow> (if s > 0 then Some s else None)
      | DOther \<Rightarrow> None)"

definition order_length :: "order_reply \<Rightarrow> int option" where
  "order_length r =
     (case r of
        ORaises \<Rightarrow> None
      | ONotArray \<Rightarrow> None
      | OArray xs \<Rightarrow> (if length xs > 0 then Some (int (length xs)) else None))"

definition analyze_strokeOf :: "cnchar \<Rightarrow> jschar \<Rightarrow> int option" where
  "analyze_strokeOf lib ch =
     (case analyze_direct (stroke lib ch) of
        Some s \<Rightarrow> Some s
      | None \<Rightarrow> order_length (stroke_order lib ch))"

text \<open>
  The two failures the specification names: the direct reply is missing, not a number
  or not positive; the fallback gives no non-empty decomposition array.
\<close>

definition direct_fails :: "direct_reply \<Rightarrow> bool" where
  "direct_fails r = (case r of DRaises \<Rightarrow> True | DNumber n \<Rightarrow> n \<le> 0 | DOther \<Rightarrow> True)"

definition fallback_fails :: "order_reply \<Rightarrow> bool" where
  "fallback_fails r =
     (case r of ORaises \<Rightarrow> True | ONotArray \<Rightarrow> True | OArray xs \<Rightarrow> xs = [])"


subsection \<open>groupByStroke\<close>

text \<open>
  \<^verbatim>\<open>if (!map.has(n)) map.set(n, new Set()); map.get(n).add(ch);\<close> A new key goes to
  the end of the map with the one-element set; an existing key keeps its place and its
  set gets the character added.
\<close>

fun bucket_add :: "int \<Rightarrow> jschar \<Rightarrow> strokeMap \<Rightarrow> strokeMap" where
  "bucket_add n ch [] = [(n, set_add ch [])]"
| "bucket_add n ch ((k, s) # m) =
     (if k = n then (k, set_add ch s) # m else (k, s) # bucket_add n ch m)"

text \<open>\<^verbatim>\<open>if (!n) continue;\<close> skips \<^verbatim>\<open>undefined\<close> and the number 0.\<close>

definition group_step :: "cnchar \<Rightarrow> jschar \<Rightarrow> strokeMap \<Rightarrow> strokeMap" where
  "group_step lib ch m =
     (case strokeOf lib ch of
        None \<Rightarrow> m
      | Some n \<Rightarrow> (if n = 0 then m else bucket_add n ch m))"

definition groupByStroke :: "cnchar \<Rightarrow> jschar list \<Rightarrow> strokeMap" where
  "groupByStroke lib chars = fold (group_step lib) chars []"

text \<open>\<^verbatim>\<open>strokeMap.get(k)\<close>, asked only for keys of the map; the set of a key that is
  absent is taken as empty.\<close>

definition bucket :: "strokeMap \<Rightarrow> int \<Rightarrow> charset" where
  "bucket m k = (case map_of m k of None \<Rightarrow> [] | Some s \<Rightarrow> s)"

definition map_chars :: "strokeMap \<Rightarrow> jschar set" where
  "map_chars m = set (concat (map snd m))"

text \<open>The characters of a set that get a bucket: those with a stroke count that is
  neither \<^verbatim>\<open>undefined\<close> nor 0.\<close>

definition classified :: "cnchar \<Rightarrow> jschar \<Rightarrow> bool" where
  "classified lib ch = (case strokeOf lib ch of None \<Rightarrow> False | Some n \<Rightarrow> n \<noteq> 0)"

section \<open>CharsetLoader: parseExistingChars\<close>

text \<open>
  The line pattern \<^verbatim>\<open>/^(\d+)[H\s]*\t(.+)$/\<close> (with U+753B for \<^verbatim>\<open>H\<close>), matched by
  backtracking as the regular expression engine does; only the second group is used.
  \<open>star_tab_rest\<close> is \<^verbatim>\<open>[H\s]*\t(.+)$\<close>: the greedy star first takes one more unit
  of its class, and only when the rest fails that way the tab must stand here.
  \<open>digits_then\<close> is the greedy remainder of \<^verbatim>\<open>\d+\<close> after its first digit. Without the
  \<^verbatim>\<open>m\<close> flag \<^verbatim>\<open>^\<close> is the start of the line and \<^verbatim>\<open>$\<close> its end.
\<close>

definition in_class :: "nat \<Rightarrow> bool" where
  "in_class c = (c = hua \<or> is_space c)"

definition dot_plus_end :: "jsstring \<Rightarrow> bool" where
  "dot_plus_end s = (s \<noteq> [] \<and> list_all (\<lambda>c. \<not> is_line_terminator c) s)"

fun star_tab_rest :: "jsstring \<Rightarrow> jsstring option" where
  "star_tab_rest [] = None"
| "star_tab_rest (c # cs) =
     (case (if in_class c then star_tab_rest cs else None) of
        Some r \<Rightarrow> Some r
      | None \<Rightarrow> (if c = 9 \<and> dot_plus_end cs then Some cs else None))"

fun digits_then :: "jsstring \<Rightarrow> jsstring option" where
  "digits_then [] = None"
| "digits_then (c # cs) =
     (case (if is_digit c then digits_then cs else None) of
        Some r \<Rightarrow> Some r
      | None \<Rightarrow> star_tab_rest (c # cs))"

definition match_line :: "jsstring \<Rightarrow> jsstring option" where
  "match_line line =
     (case line of [] \<Rightarrow> None | c # cs \<Rightarrow> (if is_digit c then digits_then cs else None))"

text \<open>\<^verbatim>\<open>if (!ch) continue; if (ch.length === 1) charSet.add(ch);\<close>\<close>

definition add_token :: "jsstring \<Rightarrow> charset \<Rightarrow> charset" where
  "add_token tok s = (case tok of [c] \<Rightarrow> set_add c s | _ \<Rightarrow> s)"

definition line_tokens :: "jsstring \<Rightarrow> jsstring list" where
  "line_tokens m2 = split_on 32 (trim (collapse_ws m2))"

definition parse_line :: "jsstring \<Rightarrow> charset \<Rightarrow> charset" where
  "parse_line line s =
     (case match_line line of None \<Rightarrow> s | Some m2 \<Rightarrow> fold add_token (line_tokens m2) s)"

definition parseExistingChars :: "jsstring \<Rightarrow> charset" where
  "parseExistingChars text = fold parse_line (split_lines text) []"

section \<open>CandidateAggregator\<close>

text \<open>The literal of \<^verbatim>\<open>heuristicCandidates\<close>, before its \<^verbatim>\<open>.replace(/\s+/g, '')\<close>. It
  has no surrogate, so the \<^verbatim>\<open>for ... of\<close> loop over its code points visits its code
  units.\<close>

definition heuristic_literal :: jsstring where
  "heuristic_literal = [
     21756, 32, 26279, 32, 22247, 32, 22007, 32, 21992, 32, 21670, 32, 21571, 32, 21652, 32,
     21658, 32, 21691, 32, 21673, 32, 21999, 32, 22103, 32, 21667, 32, 21652, 32, 21543, 32,
     21591, 32, 22052, 32, 21981, 32, 22191, 32, 31389, 32, 30733, 32, 32548, 32, 38718, 32,
     22840, 32, 28843, 32, 37239, 32, 25769, 32, 20315, 32, 31995, 32, 36538, 32, 24179, 32,
     20869, 32, 21367, 32, 25171, 32, 21345, 32, 31181, 32, 33609, 32, 24067, 32, 36947, 32,
     36187, 32, 36947, 32, 27969, 32, 37327, 32, 20986, 32, 22280, 32, 30772, 32, 22280, 32,
     36393, 32, 38647, 32, 22475, 32, 38647, 32, 36393, 32, 22353, 32, 22260, 32, 35266, 32,
     25220, 32, 34989, 32, 22797, 32, 30424, 32, 25286, 32, 35299, 32, 31181, 32, 23376, 32,
     36171, 32, 33021, 32, 20114, 32, 32852, 32, 32593, 32, 31639, 32, 27861, 32, 27169, 32,
     22411, 32, 25968, 25454, 32, 38598, 32, 35821, 32, 26009, 32, 24211, 32, 24037, 32, 19994,
     32, 21270, 32, 25968, 32, 23383, 32, 21270, 32, 26234, 32, 33021, 32, 21270, 32, 31639,
     32, 21147, 32, 20975, 32, 25746, 32, 26421, 32, 25289, 32, 36213, 32, 38065, 32, 23385,
     32, 26446, 32, 21608, 32, 21556, 32, 37073, 32, 29579, 32, 20891, 32, 30922, 32, 33459,
     32, 23071, 32, 38634, 32, 38686, 32, 20025, 32, 38745, 32, 20912, 32, 24420, 32, 20426,
     32, 26480, 32, 21338, 32, 25991, 32, 23376, 32, 36713, 32, 26771, 32, 33841, 32, 27803,
     32, 25991, 32, 27803, 32, 29747, 32, 21487, 32, 21487, 32, 20048, 32, 20048, 32, 22925,
     32, 22925, 32, 26133, 32, 31098, 32, 31054, 32, 33275, 32, 23480, 32, 30355, 32, 36713,
     32, 30355, 32, 23431, 32, 30355, 32, 22825, 32, 21338, 32, 23398, 32, 28006, 32, 19996,
     32, 24464, 32, 27719, 32, 38389, 32, 34892, 32, 22025, 32, 23450, 32, 26494, 32, 27743,
     32, 38738, 32, 28006, 32, 22857, 32, 36132, 32, 26472, 32, 28006, 32, 26222, 32, 38464,
     32, 34425, 32, 21475, 32, 38271, 32, 23425, 32, 40644, 32, 28006, 32, 38745, 32, 23433,
     32, 26397, 32, 38451, 32, 28023, 32, 28096, 32, 26124, 32, 24179, 32, 39034, 32, 20041,
     32, 20016, 32, 21488, 32, 30707, 32, 26223, 32, 23665, 32, 19996, 32, 22478, 32, 35199,
     32, 22478, 32, 22825, 32, 27827, 32, 36234, 32, 31168, 32, 28023, 32, 29664, 32, 30058,
     32, 31162, 32, 21335, 32, 27801, 32, 40644, 32, 22484, 32, 30333, 32, 20113, 32, 26791,
     32, 24030, 32, 26690, 32, 26519, 32, 26611, 32, 24030, 32, 21271, 32, 28023, 32, 38054,
     32, 24030, 32, 38450, 32, 22478, 32, 28207, 32, 23815, 32, 24038, 32, 19996, 32, 20852,
     32, 29664, 32, 28023, 32, 20013, 32, 23665, 32, 27733, 32, 22836, 32, 27733, 32, 23614,
     32, 26753, 32, 23665, 32, 27743, 32, 27721, 32, 27743, 32, 23736, 32, 27743, 32, 22799,
     32, 30810, 32, 21475, 32, 27494, 32, 26124, 32, 27721, 32, 38451, 32, 38738, 32, 23665,
     32, 27946, 32, 23665, 32, 34081, 32, 22378, 32, 26143, 32, 38142, 32, 21306, 32, 22359,
     32, 20999, 32, 29255, 32, 28145, 32, 24230, 32, 23398, 32, 20064, 32, 24378, 32, 21270,
     32, 23398, 32, 20064, 32, 36801, 32, 31227, 32, 23398, 32, 20064, 32, 32852, 32, 37030,
     32, 23398, 32, 20064, 32, 21442, 32, 25968, 32, 26799, 32, 24230, 32, 26435, 32, 37325,
     32, 21521, 32, 37327, 32, 20195, 32, 30721, 32, 20179, 32, 36719, 32, 20214, 32, 21253,
     32, 31649, 32, 29702, 32, 22120, 32, 25509, 32, 21475, 32, 21327, 32, 35758, 32, 20195,
     32, 29702, 32, 26381, 32, 21153, 32, 34394, 32, 25311, 32, 21270, 32, 23481, 32, 22120,
     32, 38236, 32, 20687, 32, 20113, 32, 21407, 32, 29983, 32, 36793, 32, 32536, 32, 35745,
     32, 31639, 32, 29289, 32, 32852, 32, 32593, 32, 25968, 32, 25454, 32, 24211, 32, 32531,
     32, 23384, 32, 28040, 32, 24687, 32, 38431, 32, 21015, 32, 20013, 32, 38388, 32, 20214,
     32, 24494, 32, 26381, 32, 21153, 32, 32593, 32, 20851, 32, 37492, 32, 26435, 32, 21152,
     32, 23494, 32, 35299, 32, 23494, 32, 32534, 32, 30721, 32, 35299, 32, 30721, 32, 23383,
     32, 33410, 32, 27969, 32, 24335, 32, 22871, 32, 25509, 32, 23383, 32, 20840, 32, 26632,
     32, 21069, 32, 31471, 32, 21518, 32, 31471, 32, 20013, 32, 21488, 32, 31471, 32, 21040,
     32, 31471, 32, 21315, 32, 23618, 32, 39292, 32, 22522, 32, 24314, 32, 21487, 32, 35266,
     32, 27979, 32, 24615, 32, 21387, 32, 27979, 32, 31283, 32, 24577, 32, 28784, 32, 24230,
     32, 37329, 32, 19988, 32, 31574, 32, 30053]"

definition heuristicCandidates :: jsstring where
  "heuristicCandidates = filter (\<lambda>c. \<not> is_space c) heuristic_literal"

definition buildCandidateSet :: charset where
  "buildCandidateSet = fold set_add heuristicCandidates []"

text \<open>An include file: \<open>None\<close> when \<^verbatim>\<open>readFileSync\<close> raises (the file is logged and
  skipped), its text otherwise.
  \<^verbatim>\<open>t.split(/[\s,]+/g).map(s => s.trim()).filter(Boolean)\<close>, then the tokens of length 1
  are added.\<close>

definition include_tokens :: "jsstring \<Rightarrow> jsstring list" where
  "include_tokens t = filter (\<lambda>s. s \<noteq> []) (map trim (split_seps t))"

definition include_add :: "jsstring option \<Rightarrow> charset \<Rightarrow> charset" where
  "include_add inc u =
     (case inc of None \<Rightarrow> u | Some t \<Rightarrow> fold add_token (include_tokens t) u)"

subsection \<open>extractCharsFromFonts\<close>

text \<open>
  The font directory is a tree. \<^verbatim>\<open>readdirSync\<close> of a directory raises (\<open>None\<close>) or
  lists its entries; \<^verbatim>\<open>fontkit.openSync\<close> with \<^verbatim>\<open>font.characterSet\<close> raises
  (\<open>FontFails\<close>) or gives the code points the font covers. A path is the list of the
  names \<^verbatim>\<open>path.join\<close> has put together. The test on the file name's extension uses
  Node's \<^verbatim>\<open>path.extname\<close>, a library function, and is the parameter \<open>is_font\<close>.
  The stack has its top at the head of the list.
\<close>

datatype font_reply = FontFails | CharacterSet "nat list"

datatype dirent =
    Directory jsstring "dirent list option"
  | File jsstring font_reply
  | Other jsstring

type_synonym path = "jsstring list"
type_synonym walk_state = "(path \<times> dirent list option) list \<times> charset \<times> path list"

text \<open>\<^verbatim>\<open>if (code >= 0x4E00 && code <= 0x9FFF) chars.add(String.fromCharCode(code));\<close>\<close>

definition add_glyph :: "nat \<Rightarrow> charset \<Rightarrow> charset" where
  "add_glyph code chars = (if code \<ge> 19968 \<and> code \<le> 40959 then set_add code chars else chars)"

definition scan_item :: "(jsstring \<Rightarrow> bool) \<Rightarrow> path \<Rightarrow> dirent \<Rightarrow> walk_state \<Rightarrow> walk_state" where
  "scan_item is_font d it st =
     (case st of (stack, chars, log) \<Rightarrow>
        (case it of
           Directory name l \<Rightarrow> ((d @ [name], l) # stack, chars, log)
         | File name r \<Rightarrow>
             (if is_font name then
                (case r of
                   FontFails \<Rightarrow> (stack, chars, log @ [d @ [name]])
                 | CharacterSet glyphs \<Rightarrow> (stack, fold add_glyph glyphs chars, log))
              else (stack, chars, log))
         | Other name \<Rightarrow> (stack, chars, log)))"

definition stack_weight :: "(path \<times> dirent list option) list \<Rightarrow> nat" where
  "stack_weight stack = sum_list (map (\<lambda>e. Suc (size_option (size_list size) (snd e))) stack)"

lemma stack_weight_scan:
  "fold (scan_item is_font d) items (stack, chars, log) = (stack', chars', log') \<Longrightarrow>
   stack_weight stack' \<le> stack_weight stack + size_list size items"
proof (induction items arbitrary: stack chars log)
  case Nil
  then show ?case by simp
next
  case (Cons it items)
  obtain s1 c1 l1 where st: "scan_item is_font d it (stack, chars, log) = (s1, c1, l1)"
    by (cases "scan_item is_font d it (stack, chars, log)") auto
  have step: "stack_weight s1 \<le> stack_weight stack + size it"
    using st
    by (cases it) (auto simp: scan_item_def stack_weight_def split: if_splits font_reply.splits)
  from Cons.prems st have "fold (scan_item is_font d) items (s1, c1, l1) = (stack', chars', log')"
    by simp
  from Cons.IH [OF this] step show ?case by simp
qed

function walk ::
  "(jsstring \<Rightarrow> bool) \<Rightarrow> (path \<times> dirent list option) list \<Rightarrow> charset \<Rightarrow> path list
     \<Rightarrow> (charset \<times> path list) option" where
  "walk is_font [] chars log = Some (chars, log)"
| "walk is_font ((d, None) # stack) chars log = None"
| "walk is_font ((d, Some items) # stack) chars log =
     (case fold (scan_item is_font d) items (stack, chars, log) of
        (stack', chars', log') \<Rightarrow> walk is_font stack' chars' log')"
  by pat_completeness auto
termination
proof (relation "measure (\<lambda>(f, stack, chars, log). stack_weight stack)")
  show "wf (measure (\<lambda>(f, stack, chars, log). stack_weight stack))"
    by simp
next
  fix is_font d items stack chars log stack' y chars' log'
  assume "(stack', y) = fold (scan_item is_font d) items (stack, chars, log)"
    and "(chars', log') = y"
  then have "fold (scan_item is_font d) items (stack, chars, log) = (stack', chars', log')"
    by simp
  from stack_weight_scan [OF this]
  show "((is_font, stack', chars', log'), (is_font, (d, Some items) # stack, chars, log))
          \<in> measure (\<lambda>(f, stack, chars, log). stack_weight stack)"
    by (simp add: stack_weight_def)
qed

text \<open>\<^verbatim>\<open>extractCharsFromFonts(dirPath)\<close>: \<open>None\<close> when a \<^verbatim>\<open>readdirSync\<close> raises (nothing
  in the function catches that), else the characters and the fonts logged as failed.\<close>

definition extractCharsFromFonts ::
  "(jsstring \<Rightarrow> bool) \<Rightarrow> path \<Rightarrow> dirent list option \<Rightarrow> (charset \<times> path list) option" where
  "extractCharsFromFonts is_font dirPath listing = walk is_font [(dirPath, listing)] [] []"

subsection \<open>The union built by main\<close>

text \<open>
  Lines 125 to 156 of extend-charset.js: the baseline characters, the candidates, the
  include files in order, and the characters of the fonts; when the font scan raises,
  \<^verbatim>\<open>main\<close> catches it and the union stays as it is.
\<close>

record sources =
  content :: jsstring
  includeFiles :: "jsstring option list"
  is_font :: "jsstring \<Rightarrow> bool"
  fontDir :: path
  fontListing :: "dirent list option"

definition union_before_fonts :: "sources \<Rightarrow> charset" where
  "union_before_fonts src =
     fold include_add (includeFiles src)
       (add_all buildCandidateSet (parseExistingChars (content src)))"

definition add_fonts :: "(charset \<times> path list) option \<Rightarrow> charset \<Rightarrow> charset" where
  "add_fonts extra u = (case extra of None \<Rightarrow> u | Some (chars, log) \<Rightarrow> add_all chars u)"

definition main_union :: "sources \<Rightarrow> charset" where
  "main_union src =
     add_fonts (extractCharsFromFonts (is_font src) (fontDir src) (fontListing src))
       (union_before_fonts src)"

section \<open>The options of parseArgs\<close>

text \<open>
  The numbers \<^verbatim>\<open>parseInt\<close> returns. A digit string worth less than \<open>2\<^sup>5\<^sup>3\<close> is read
  exactly. From \<open>2\<^sup>5\<^sup>3\<close> on the result is the value rounded to a double (digits after
  the 20th as the engine likes), in the end \<^verbatim>\<open>Infinity\<close>: a number of size at least
  \<open>2\<^sup>5\<^sup>3\<close>, which is all the run uses of it; these are \<open>Large\<close> and \<open>NegLarge\<close>.
\<close>

datatype jsnum = Num int | Large | NegLarge

text \<open>
  \<^verbatim>\<open>parseInt(s, 10)\<close>: leading white space is skipped, then an optional sign, then the
  longest run of decimal digits; without a digit the result is \<^verbatim>\<open>NaN\<close> (\<open>None\<close>).
\<close>

definition digits_value :: "jsstring \<Rightarrow> nat" where
  "digits_value z = fold (\<lambda>c acc. 10 * acc + (c - 48)) z 0"

definition parseInt10 :: "jsstring \<Rightarrow> jsnum option" where
  "parseInt10 s =
     (let t = dropWhile is_space s;
          neg = (case t of [] \<Rightarrow> False | c # cs \<Rightarrow> c = 45);
          r = (case t of [] \<Rightarrow> [] | c # cs \<Rightarrow> (if c = 45 \<or> c = 43 then cs else t));
          z = takeWhile is_digit r
      in if z = [] then None
         else if digits_value z < 9007199254740992 then
           Some (Num (if neg then - int (digits_value z) else int (digits_value z)))
         else Some (if neg then NegLarge else Large))"

text \<open>
  The option names \<^verbatim>\<open>--limit\<close>, \<^verbatim>\<open>--out\<close>, \<^verbatim>\<open>--preview\<close>, \<^verbatim>\<open>--fontDir\<close> and
  \<^verbatim>\<open>--include\<close>.
\<close>

definition flag_limit :: jsstring where
  "flag_limit = [45, 45, 108, 105, 109, 105, 116]"

definition flag_out :: jsstring where
  "flag_out = [45, 45, 111, 117, 116]"

definition flag_preview :: jsstring where
  "flag_preview = [45, 45, 112, 114, 101, 118, 105, 101, 119]"

definition flag_fontDir :: jsstring where
  "flag_fontDir = [45, 45, 102, 111, 110, 116, 68, 105, 114]"

definition flag_include :: jsstring where
  "flag_include = [45, 45, 105, 110, 99, 108, 117, 100, 101]"

text \<open>
  What \<^verbatim>\<open>parseArgs\<close> returns, as far as it steers the selection and the writing: the
  limit and the preview flag. The paths of \<^verbatim>\<open>--out\<close>, \<^verbatim>\<open>--fontDir\<close> and \<^verbatim>\<open>--include\<close>
  name the files of the run, which are given to the model as they read
  (\<^typ>\<open>sources\<close>).
\<close>

record options =
  opt_limit :: jsnum
  opt_preview :: bool

text \<open>
  The loop of \<^verbatim>\<open>parseArgs\<close>. \<^verbatim>\<open>--limit\<close> takes the next argument:
  \<^verbatim>\<open>out.limit = parseInt(args[++i], 10) || out.limit\<close>, so \<^verbatim>\<open>NaN\<close> and 0 leave the
  limit as it is; at the very end it reads \<^verbatim>\<open>undefined\<close>, of which \<^verbatim>\<open>parseInt\<close> is
  \<^verbatim>\<open>NaN\<close>. \<^verbatim>\<open>--out\<close>, \<^verbatim>\<open>--fontDir\<close> and \<^verbatim>\<open>--include\<close> take the next argument too
  and hand it to \<^verbatim>\<open>path.resolve\<close>, which raises a TypeError on \<^verbatim>\<open>undefined\<close>: that
  is the result \<open>None\<close>, and nothing catches it. Every other argument is passed over.
\<close>

fun parseArgs_loop :: "jsstring list \<Rightarrow> options \<Rightarrow> options option" where
  "parseArgs_loop [] opts = Some opts"
| "parseArgs_loop [a] opts =
     (if a = flag_out \<or> a = flag_fontDir \<or> a = flag_include then None
      else if a = flag_preview then Some (opts\<lparr>opt_preview := True\<rparr>)
      else Some opts)"
| "parseArgs_loop (a # b # rest) opts =
     (if a = flag_limit then
        parseArgs_loop rest
          (opts\<lparr>opt_limit :=
             (case parseInt10 b of
                None \<Rightarrow> opt_limit opts
              | Some n \<Rightarrow> (if n = Num 0 then opt_limit opts else n))\<rparr>)
      else if a = flag_out \<or> a = flag_fontDir \<or> a = flag_include then
        parseArgs_loop rest opts
      else if a = flag_preview then parseArgs_loop (b # rest) (opts\<lparr>opt_preview := True\<rparr>)
      else parseArgs_loop (b # rest) opts)"

text \<open>\<^verbatim>\<open>parseArgs\<close>: the default limit is 5800, and no preview.\<close>

definition parseArgs :: "jsstring list \<Rightarrow> options option" where
  "parseArgs args = parseArgs_loop args \<lparr>opt_limit = Num 5800, opt_preview = False\<rparr>"

definition parseArgs_limit :: "jsstring list \<Rightarrow> jsnum option" where
  "parseArgs_limit args = map_option opt_limit (parseArgs args)"

section \<open>SelectionPolicy\<close>

text \<open>
  \<^verbatim>\<open>Array.from(strokeMap.keys()).sort((a, b) => a - b)\<close> and the sort of a bucket with
  \<^verbatim>\<open>a.localeCompare(b, 'zh-Hans-CN')\<close>. The collation of the JavaScript engine is a
  parameter: \<open>coll\<close> gives every character its collation key, and the stable sort of
  the engine is \<open>sort_key\<close>.
\<close>

definition sorted_keys :: "strokeMap \<Rightarrow> int list" where
  "sorted_keys m = sort (map fst m)"

definition total_chars :: "strokeMap \<Rightarrow> nat" where
  "total_chars m = fold (\<lambda>k acc. acc + length (bucket m k)) (sorted_keys m) 0"

text \<open>\<open>total_chars\<close> is the variable \<^verbatim>\<open>total\<close> of line 161.\<close>

text \<open>The inner loop of the truncation: \<^verbatim>\<open>if (picked.size >= limit) break; picked.add(ch);\<close>\<close>

fun pick_chars :: "int \<Rightarrow> charset \<Rightarrow> jschar list \<Rightarrow> charset" where
  "pick_chars limit picked [] = picked"
| "pick_chars limit picked (ch # rest) =
     (if int (length picked) \<ge> limit then picked
      else pick_chars limit (set_add ch picked) rest)"

text \<open>The outer loop, with its \<^verbatim>\<open>if (picked.size >= limit) break;\<close> after each bucket.\<close>

fun pick_keys :: "(jschar \<Rightarrow> 'k::linorder) \<Rightarrow> int \<Rightarrow> strokeMap \<Rightarrow> charset \<Rightarrow> int list \<Rightarrow> charset" where
  "pick_keys coll limit m picked [] = picked"
| "pick_keys coll limit m picked (k # ks) =
     (let picked' = pick_chars limit picked (sort_key coll (bucket m k))
      in if int (length picked') \<ge> limit then picked'
         else pick_keys coll limit m picked' ks)"

definition picked_chars :: "(jschar \<Rightarrow> 'k::linorder) \<Rightarrow> int \<Rightarrow> strokeMap \<Rightarrow> charset" where
  "picked_chars coll limit m = pick_keys coll limit m [] (sorted_keys m)"

text \<open>Lines 158 to 175: the stroke map \<^verbatim>\<open>main\<close> goes on with.\<close>

definition select :: "cnchar \<Rightarrow> (jschar \<Rightarrow> 'k::linorder) \<Rightarrow> int \<Rightarrow> charset \<Rightarrow> strokeMap" where
  "select lib coll limit u =
     (let strokeMap = groupByStroke lib u
      in if int (total_chars strokeMap) > limit
         then groupByStroke lib (picked_chars coll limit strokeMap)
         else strokeMap)"

text \<open>The order of the truncation: buckets by ascending stroke count, each bucket in
  collation order.\<close>

definition ordered_chars :: "(jschar \<Rightarrow> 'k::linorder) \<Rightarrow> strokeMap \<Rightarrow> jschar list" where
  "ordered_chars coll m = concat (map (\<lambda>k. sort_key coll (bucket m k)) (sorted_keys m))"

section \<open>Formatter\<close>

text \<open>The two anchors: \<^verbatim>\<open>'1000 \<close> followed by the seven characters U+4E2A U+6B21 U+5E38
  U+7528 U+5B57 U+5927 U+5168, and \<^verbatim>\<open>'1234567890'\<close>.\<close>

definition prefix_anchor :: jsstring where
  "prefix_anchor = [49, 48, 48, 48, 32, 20010, 27425, 24120, 29992, 23383, 22823, 20840]"

definition suffix_anchor :: jsstring where
  "suffix_anchor = [49, 50, 51, 52, 53, 54, 55, 56, 57, 48]"

definition prefix_region :: "jsstring \<Rightarrow> jsstring" where
  "prefix_region raw =
     (case indexOf prefix_anchor raw of None \<Rightarrow> [] | Some i \<Rightarrow> trim (take i raw))"

definition suffix_region :: "jsstring \<Rightarrow> jsstring" where
  "suffix_region raw =
     (case indexOf suffix_anchor raw of None \<Rightarrow> [] | Some i \<Rightarrow> trim (drop i raw))"

text \<open>One line of the body: the count, U+753B, a tab, the bucket joined by spaces, a
  line feed.\<close>

definition body_line :: "(jschar \<Rightarrow> 'k::linorder) \<Rightarrow> strokeMap \<Rightarrow> int \<Rightarrow> jsstring" where
  "body_line coll m n =
     num_toString n @ [hua, 9] @ join_chars (sort_key coll (bucket m n)) @ [10]"

text \<open>The line without its line feed.\<close>

definition line_text :: "(jschar \<Rightarrow> 'k::linorder) \<Rightarrow> strokeMap \<Rightarrow> int \<Rightarrow> jsstring" where
  "line_text coll m n = num_toString n @ [hua, 9] @ join_chars (sort_key coll (bucket m n))"

definition render_body :: "(jschar \<Rightarrow> 'k::linorder) \<Rightarrow> strokeMap \<Rightarrow> jsstring" where
  "render_body coll m = concat (map (body_line coll m) (sorted_keys m))"

text \<open>\<^verbatim>\<open>formatOutput\<close>; \<open>raw\<close> is what \<^verbatim>\<open>readContent()\<close> returns.\<close>

definition formatOutput :: "(jschar \<Rightarrow> 'k::linorder) \<Rightarrow> jsstring \<Rightarrow> strokeMap \<Rightarrow> jsstring" where
  "formatOutput coll raw m =
     trim (prefix_region raw @ [10, 10] @ render_body coll m @ [10, 10] @ suffix_region raw)
       @ [10]"

text \<open>The text \<^verbatim>\<open>main\<close> writes when it is not a preview.\<close>

definition main_output :: "cnchar \<Rightarrow> (jschar \<Rightarrow> 'k::linorder) \<Rightarrow> int \<Rightarrow> sources \<Rightarrow> jsstring" where
  "main_output lib coll limit src =
     formatOutput coll (content src) (select lib coll limit (main_union src))"

text \<open>
  The selection under the limit of \<^verbatim>\<open>parseArgs\<close>. A \<^verbatim>\<open>Set\<close> holds fewer than \<open>2\<^sup>5\<^sup>3\<close>
  elements, so against \<open>Large\<close> the test \<^verbatim>\<open>total > limit\<close> fails and the stroke map
  stays as it is; against \<open>NegLarge\<close> the test holds, \<^verbatim>\<open>picked.size >= limit\<close> stops the
  loop before the first character, and the stroke map is that of the empty set.
\<close>

definition select_lim ::
  "cnchar \<Rightarrow> (jschar \<Rightarrow> 'k::linorder) \<Rightarrow> jsnum \<Rightarrow> charset \<Rightarrow> strokeMap" where
  "select_lim lib coll lim u =
     (case lim of
        Num L \<Rightarrow> select lib coll L u
      | Large \<Rightarrow> groupByStroke lib u
      | NegLarge \<Rightarrow> groupByStroke lib [])"

text \<open>
  A run of \<^verbatim>\<open>main\<close> from the command line arguments: \<^verbatim>\<open>parseArgs\<close> raises, or the run
  is a preview and writes no file, or it writes the document.
\<close>

datatype run = ArgsRaise | Previewed | Wrote jsstring

definition main_run ::
  "cnchar \<Rightarrow> (jschar \<Rightarrow> 'k::linorder) \<Rightarrow> jsstring list \<Rightarrow> sources \<Rightarrow> run" where
  "main_run lib coll args src =
     (case parseArgs args of
        None \<Rightarrow> ArgsRaise
      | Some opts \<Rightarrow>
          (if opt_preview opts then Previewed
           else Wrote (formatOutput coll (content src)
                         (select_lim lib coll (opt_limit opts) (main_union src)))))"

section \<open>Analyzer\<close>







text \<open>The stroke count of a character as a sort key (0 when it has none).\<close>

definition stroke_key :: "cnchar \<Rightarrow> jschar \<Rightarrow> int" where
  "stroke_key lib c = (case strokeOf lib c of None \<Rightarrow> 0 | Some n \<Rightarrow> n)"

text \<open>The characters one include file contributes: its tokens of length 1.\<close>

definition token_chars :: "jsstring list \<Rightarrow> jschar set" where
  "token_chars toks = {c. [c] \<in> set toks}"

definition include_chars :: "jsstring option \<Rightarrow> jschar set" where
  "include_chars inc = (case inc of None \<Rightarrow> {} | Some t \<Rightarrow> token_chars (include_tokens t))"

subsection \<open>What a font tree holds\<close>

text \<open>
  The reference for the font scan, by recursion over the tree: the code points of the
  basic block that the fonts of the tree cover (a font is a file whose name passes the
  extension test and that opens), the paths of the fonts that fail, and whether every
  directory of the tree can be listed.
\<close>

fun tree_glyphs :: "(jsstring \<Rightarrow> bool) \<Rightarrow> dirent \<Rightarrow> nat set" where
  "tree_glyphs f (Directory n None) = {}"
| "tree_glyphs f (Directory n (Some items)) = (\<Union>it \<in> set items. tree_glyphs f it)"
| "tree_glyphs f (File n FontFails) = {}"
| "tree_glyphs f (File n (CharacterSet glyphs)) = (if f n then {c \<in> set glyphs. isCJK c} else {})"
| "tree_glyphs f (Other n) = {}"

fun tree_failed :: "(jsstring \<Rightarrow> bool) \<Rightarrow> path \<Rightarrow> dirent \<Rightarrow> path set" where
  "tree_failed f d (Directory n None) = {}"
| "tree_failed f d (Directory n (Some items)) = (\<Union>it \<in> set items. tree_failed f (d @ [n]) it)"
| "tree_failed f d (File n FontFails) = (if f n then {d @ [n]} else {})"
| "tree_failed f d (File n (CharacterSet glyphs)) = {}"
| "tree_failed f d (Other n) = {}"

fun tree_readable :: "dirent \<Rightarrow> bool" where
  "tree_readable (Directory n None) = False"
| "tree_readable (Directory n (Some items)) = list_all tree_readable items"
| "tree_readable (File n r) = True"
| "tree_readable (Other n) = True"

text \<open>The same for the entries of the stack of the scan.\<close>

definition entry_glyphs :: "(jsstring \<Rightarrow> bool) \<Rightarrow> path \<times> dirent list option \<Rightarrow> nat set" where
  "entry_glyphs f e = (case snd e of None \<Rightarrow> {} | Some items \<Rightarrow> (\<Union>it \<in> set items. tree_glyphs f it))"

definition entry_failed :: "(jsstring \<Rightarrow> bool) \<Rightarrow> path \<times> dirent list option \<Rightarrow> path set" where
  "entry_failed f e =
     (case snd e of None \<Rightarrow> {} | Some items \<Rightarrow> (\<Union>it \<in> set items. tree_failed f (fst e) it))"

definition entry_readable :: "path \<times> dirent list option \<Rightarrow> bool" where
  "entry_readable e = (case snd e of None \<Rightarrow> False | Some items \<Rightarrow> list_all tree_readable items)"

definition stack_glyphs :: "(jsstring \<Rightarrow> bool) \<Rightarrow> (path \<times> dirent list option) list \<Rightarrow> nat set" where
  "stack_glyphs f stack = (\<Union>e \<in> set stack. entry_glyphs f e)"

definition stack_failed :: "(jsstring \<Rightarrow> bool) \<Rightarrow> (path \<times> dirent list option) list \<Rightarrow> path set" where
  "stack_failed f stack = (\<Union>e \<in> set stack. entry_failed f e)"


section \<open>Sample inputs\<close>

text \<open>Sample libraries for the closed examples below. \<open>lib_fallback\<close> knows no direct
  count and answers the order query with one decomposition of three strokes;
  the direct query of \<open>lib_raises\<close> raises and its order query gives one
  decomposition of one stroke;
  \<open>lib_undefined\<close> knows no direct count and answers the order query with the array
  \<^verbatim>\<open>[undefined]\<close>; \<open>lib_huge\<close> gives every character the count \<open>10\<^sup>2\<^sup>1\<close>;
  \<open>lib_one\<close> knows only U+4E00 (one stroke); \<open>lib_basic\<close> knows U+4E00 (one stroke),
  U+4E59 (one stroke) and U+4E8C (two strokes). \<open>code_order\<close> collates by code unit.\<close>

definition lib_fallback :: cnchar where
  "lib_fallback = \<lparr>stroke = (\<lambda>c. DNumber 0), stroke_order = (\<lambda>c. OArray [Sized 3])\<rparr>"

definition lib_raises :: cnchar where
  "lib_raises = \<lparr>stroke = (\<lambda>c. DRaises), stroke_order = (\<lambda>c. OArray [Sized 1])\<rparr>"


definition lib_huge :: cnchar where
  "lib_huge =
     \<lparr>stroke = (\<lambda>c. DNumber 1000000000000000000000), stroke_order = (\<lambda>c. ONotArray)\<rparr>"

definition lib_one :: cnchar where
  "lib_one =
     \<lparr>stroke = (\<lambda>c. if c = 19968 then DNumber 1 else DNumber 0),
      stroke_order = (\<lambda>c. ONotArray)\<rparr>"

definition lib_basic :: cnchar where
  "lib_basic =
     \<lparr>stroke = (\<lambda>c. if c = 19968 \<or> c = 20057 then DNumber 1
                   else if c = 20108 then DNumber 2 else DNumber 0),
      stroke_order = (\<lambda>c. ONotArray)\<rparr>"

definition code_order :: "jschar \<Rightarrow> nat" where
  "code_order c = c"

text \<open>A baseline document of one body line, \<^verbatim>\<open>1\<close> U+753B tab U+4E00, with no include
  file and an empty font directory.\<close>

definition src_one :: sources where
  "src_one =
     \<lparr>content = [49, 30011, 9, 19968], includeFiles = [], is_font = (\<lambda>n. False),
      fontDir = [], fontListing = Some []\<rparr>"

text \<open>A baseline document: a header line \<^verbatim>\<open>h\<close>, the line of the prefix anchor, one
  body line (\<^verbatim>\<open>1\<close> U+753B tab U+4E00), and the line of the suffix anchor.\<close>

definition doc_sample :: jsstring where
  "doc_sample =
     [104, 10] @ prefix_anchor @ [10, 49, 30011, 9, 19968, 10] @ suffix_anchor @ [10]"

text \<open>A font directory: a font that covers U+4E00, the letter A and U+9FFF, a
  subdirectory with a font that fails and a font that covers U+4E8C, and a text file.
  Names are single letters; a name is a font name when it is \<^verbatim>\<open>f\<close>, \<^verbatim>\<open>g\<close> or \<^verbatim>\<open>h\<close>.\<close>

definition font_name :: "jsstring \<Rightarrow> bool" where
  "font_name n = (n = [102] \<or> n = [103] \<or> n = [104])"

definition font_tree :: "dirent list" where
  "font_tree =
     [File [102] (CharacterSet [19968, 65, 40959]),
      Directory [100] (Some [File [103] FontFails, File [104] (CharacterSet [20108])]),
      File [116] (CharacterSet [20057])]"


section \<open>Sets and maps: basic facts\<close>

lemma set_set_add: "set (set_add x s) = insert x (set s)"
  by (auto simp: set_add_def)

lemma distinct_set_add: "distinct s \<Longrightarrow> distinct (set_add x s)"
  by (simp add: set_add_def)

lemma set_add_present: "x \<in> set s \<Longrightarrow> set_add x s = s"
  by (simp add: set_add_def)

lemma set_add_absent: "x \<notin> set s \<Longrightarrow> set_add x s = s @ [x]"
  by (simp add: set_add_def)

lemma set_add_all: "set (add_all xs s) = set xs \<union> set s"
  unfolding add_all_def
  by (induction xs arbitrary: s) (auto simp: set_set_add)

lemma distinct_add_all: "distinct s \<Longrightarrow> distinct (add_all xs s)"
  unfolding add_all_def
  by (induction xs arbitrary: s) (auto simp: distinct_set_add)

lemma add_all_Nil: "add_all [] s = s"
  by (simp add: add_all_def)

lemma add_all_Cons: "add_all (x # xs) s = add_all xs (set_add x s)"
  by (simp add: add_all_def)

lemma add_all_subset: "set xs \<subseteq> set s \<Longrightarrow> add_all xs s = s"
  by (induction xs) (auto simp: add_all_Cons add_all_Nil set_add_present)

lemma add_all_fresh:
  "distinct xs \<Longrightarrow> set xs \<inter> set s = {} \<Longrightarrow> add_all xs s = s @ xs"
proof (induction xs arbitrary: s)
  case Nil
  then show ?case by (simp add: add_all_Nil)
next
  case (Cons x xs)
  then have "add_all xs (s @ [x]) = (s @ [x]) @ xs"
    by (intro Cons.IH) auto
  with Cons.prems show ?case
    by (simp add: add_all_Cons set_add_absent)
qed

section \<open>Stroke classification: the two classifiers\<close>

lemma strokeOf_direct:
  "stroke lib ch = DNumber n \<Longrightarrow> 0 < n \<Longrightarrow> strokeOf lib ch = Some n"
  by (simp add: strokeOf_def)

lemma analyze_strokeOf_direct:
  "stroke lib ch = DNumber n \<Longrightarrow> 0 < n \<Longrightarrow> analyze_strokeOf lib ch = Some n"
  by (simp add: analyze_strokeOf_def analyze_direct_def)

lemma strokeOf_unknown:
  "direct_fails (stroke lib ch) \<Longrightarrow> fallback_fails (stroke_order lib ch) \<Longrightarrow>
   strokeOf lib ch = None"
  by (auto simp: strokeOf_def direct_fails_def fallback_fails_def order_first_length_def
      split: direct_reply.splits order_reply.splits list.splits)


lemma analyze_strokeOf_None_iff:
  "analyze_strokeOf lib ch = None \<longleftrightarrow>
   direct_fails (stroke lib ch) \<and> fallback_fails (stroke_order lib ch)"
  by (auto simp: analyze_strokeOf_def analyze_direct_def direct_fails_def fallback_fails_def
      order_length_def split: direct_reply.splits order_reply.splits option.splits if_splits)

text \<open>
  C3, as stated, fails. When the direct query raises, extend-charset's single
  \<^verbatim>\<open>try\<close> block gives \<^verbatim>\<open>undefined\<close> while analyze-charset goes on to the fallback
  and returns a count. And with no direct count and the order reply \<^verbatim>\<open>['xyz']\<close> (one
  decomposition of three strokes), extend-charset's \<^verbatim>\<open>order[0].length\<close> is 3 and
  analyze-charset's \<^verbatim>\<open>order.length\<close> is 1.
\<close>

theorem C3_classifiers_differ:
  "strokeOf lib_raises 19968 = None \<and> analyze_strokeOf lib_raises 19968 = Some 1 \<and>
   strokeOf lib_fallback 19968 = Some 3 \<and> analyze_strokeOf lib_fallback 19968 = Some 1 \<and>
   strokeOf lib_fallback 19968 \<noteq> analyze_strokeOf lib_fallback 19968"
  by (simp add: strokeOf_def analyze_strokeOf_def analyze_direct_def order_length_def
      order_first_length_def lib_fallback_def lib_raises_def)

text \<open>
  C3, amended: the two classifiers agree on every character whose direct query returns a
  positive number (both return it), and on every character for which the direct query
  and the fallback both fail (both report unknown). When the direct query raises,
  extend-charset reports unknown at once, while analyze-charset reports unknown exactly
  when the fallback fails too. Nothing is said of the count either takes from the
  fallback.
\<close>

theorem C3_classifiers_agree:
  "(stroke lib ch = DNumber n \<and> 0 < n \<longrightarrow>
      strokeOf lib ch = Some n \<and> analyze_strokeOf lib ch = Some n) \<and>
   (direct_fails (stroke lib ch) \<and> fallback_fails (stroke_order lib ch) \<longrightarrow>
      strokeOf lib ch = None \<and> analyze_strokeOf lib ch = None) \<and>
   (stroke lib ch = DRaises \<longrightarrow> strokeOf lib ch = None) \<and>
   (analyze_strokeOf lib ch = None \<longleftrightarrow>
      direct_fails (stroke lib ch) \<and> fallback_fails (stroke_order lib ch))"
proof -
  have "stroke lib ch = DRaises \<longrightarrow> strokeOf lib ch = None"
    by (simp add: strokeOf_def)
  then show ?thesis
    using analyze_strokeOf_None_iff [of lib ch]
    by (simp add: strokeOf_direct analyze_strokeOf_direct strokeOf_unknown)
qed

theorem C3_classifiers_agree_witness:
  "stroke lib_one 19968 = DNumber 1 \<and> strokeOf lib_one 19968 = Some 1 \<and>
   analyze_strokeOf lib_one 19968 = Some 1 \<and>
   direct_fails (stroke lib_one 20108) \<and> fallback_fails (stroke_order lib_one 20108) \<and>
   strokeOf lib_one 20108 = None \<and> analyze_strokeOf lib_one 20108 = None \<and>
   stroke lib_raises 19968 = DRaises \<and> strokeOf lib_raises 19968 = None"
proof -
  have d: "stroke lib_one 19968 = DNumber 1 \<and> (0::int) < 1"
    by (simp add: lib_one_def)
  have f: "direct_fails (stroke lib_one 20108) \<and> fallback_fails (stroke_order lib_one 20108)"
    by (simp add: lib_one_def direct_fails_def fallback_fails_def)
  have r: "stroke lib_raises 19968 = DRaises"
    by (simp add: lib_raises_def)
  from C3_classifiers_agree [of lib_one 19968 1] d
  have "strokeOf lib_one 19968 = Some 1 \<and> analyze_strokeOf lib_one 19968 = Some 1"
    by blast
  moreover from C3_classifiers_agree [of lib_one 20108 0] f
  have "strokeOf lib_one 20108 = None \<and> analyze_strokeOf lib_one 20108 = None"
    by blast
  moreover from C3_classifiers_agree [of lib_raises 19968 0] r
  have "strokeOf lib_raises 19968 = None"
    by blast
  ultimately show ?thesis using d f r by simp
qed

section \<open>groupByStroke: what the buckets hold\<close>

lemma bucket_bucket_add:
  "bucket (bucket_add n ch m) k = (if k = n then set_add ch (bucket m n) else bucket m k)"
  by (induction m) (auto simp: bucket_def)

lemma keys_bucket_add: "fst ` set (bucket_add n ch m) = insert n (fst ` set m)"
  by (induction m) (force split: if_splits)+

lemma distinct_keys_bucket_add:
  "distinct (map fst m) \<Longrightarrow> distinct (map fst (bucket_add n ch m))"
  by (induction m) (auto simp: keys_bucket_add)

lemma bucket_group_step:
  "bucket (group_step lib ch m) k =
     (if strokeOf lib ch = Some k \<and> k \<noteq> 0 then set_add ch (bucket m k) else bucket m k)"
  by (auto simp: group_step_def bucket_bucket_add split: option.splits)

lemma bucket_fold_group:
  "bucket (fold (group_step lib) chars m) k =
     add_all (filter (\<lambda>c. strokeOf lib c = Some k \<and> k \<noteq> 0) chars) (bucket m k)"
  by (induction chars arbitrary: m)
     (simp_all add: add_all_Nil add_all_Cons bucket_group_step)

lemma bucket_Nil: "bucket [] k = []"
  by (simp add: bucket_def)

lemma set_bucket_group:
  "set (bucket (groupByStroke lib chars) k) =
     {c \<in> set chars. strokeOf lib c = Some k \<and> k \<noteq> 0}"
  by (auto simp: groupByStroke_def bucket_fold_group set_add_all bucket_Nil)

lemma distinct_bucket_group: "distinct (bucket (groupByStroke lib chars) k)"
  by (simp add: groupByStroke_def bucket_fold_group distinct_add_all bucket_Nil)

lemma keys_group_step:
  "fst ` set (group_step lib ch m) =
     (case strokeOf lib ch of
        None \<Rightarrow> fst ` set m
      | Some n \<Rightarrow> if n = 0 then fst ` set m else insert n (fst ` set m))"
  by (simp add: group_step_def keys_bucket_add split: option.splits)

lemma keys_fold_group:
  "fst ` set (fold (group_step lib) chars m) =
     fst ` set m \<union> {k. k \<noteq> 0 \<and> (\<exists>c \<in> set chars. strokeOf lib c = Some k)}"
proof (induction chars arbitrary: m)
  case Nil
  then show ?case by simp
next
  case (Cons c chars)
  show ?case
    by (cases "strokeOf lib c") (auto simp: Cons.IH keys_group_step split: if_splits)
qed

lemma keys_group:
  "fst ` set (groupByStroke lib chars) =
     {k. k \<noteq> 0 \<and> (\<exists>c \<in> set chars. strokeOf lib c = Some k)}"
  by (simp add: groupByStroke_def keys_fold_group)

lemma distinct_keys_group_step:
  "distinct (map fst m) \<Longrightarrow> distinct (map fst (group_step lib ch m))"
  by (simp add: group_step_def distinct_keys_bucket_add split: option.splits)

lemma distinct_keys_fold_group:
  "distinct (map fst m) \<Longrightarrow> distinct (map fst (fold (group_step lib) chars m))"
  by (induction chars arbitrary: m) (simp_all add: distinct_keys_group_step)

lemma distinct_keys_group: "distinct (map fst (groupByStroke lib chars))"
  by (simp add: groupByStroke_def distinct_keys_fold_group)

lemma map_chars_buckets:
  "distinct (map fst m) \<Longrightarrow> map_chars m = (\<Union>k \<in> fst ` set m. set (bucket m k))"
proof -
  assume d: "distinct (map fst m)"
  have "\<And>k s. (k, s) \<in> set m \<Longrightarrow> bucket m k = s"
    using d by (simp add: bucket_def)
  moreover have "\<And>k. k \<in> fst ` set m \<Longrightarrow> (k, bucket m k) \<in> set m"
    using d by (auto simp: bucket_def)
  ultimately show ?thesis
    unfolding map_chars_def by (auto; force)
qed

lemma map_chars_group:
  "map_chars (groupByStroke lib chars) = {c \<in> set chars. classified lib c}"
  by (auto simp: map_chars_buckets [OF distinct_keys_group] set_bucket_group keys_group
      classified_def split: option.splits)

section \<open>The tally of the analyzer\<close>















section \<open>SelectionPolicy: the truncation\<close>

lemma fold_add_length:
  "fold (\<lambda>k acc. acc + f k) ks a = a + sum_list (map f ks)"
  for f :: "'a \<Rightarrow> nat"
  by (induction ks arbitrary: a) (simp_all add: ac_simps)

lemma total_length_ordered: "total_chars m = length (ordered_chars coll m)"
  by (simp add: total_chars_def ordered_chars_def fold_add_length length_concat comp_def)

lemma pick_chars_take:
  "distinct xs \<Longrightarrow> set xs \<inter> set picked = {} \<Longrightarrow>
   pick_chars limit picked xs = picked @ take (nat (limit - int (length picked))) xs"
proof (induction xs arbitrary: picked)
  case Nil
  then show ?case by simp
next
  case (Cons x xs)
  show ?case
  proof (cases "limit \<le> int (length picked)")
    case True
    then show ?thesis by simp
  next
    case False
    from Cons.prems have fresh: "x \<notin> set picked" and d: "distinct xs"
      and disj: "set xs \<inter> set (picked @ [x]) = {}"
      by auto
    have n: "nat (limit - int (length picked)) = Suc (nat (limit - int (length (picked @ [x]))))"
      using False by simp
    have "pick_chars limit picked (x # xs) = pick_chars limit (picked @ [x]) xs"
      using False fresh by (simp add: set_add_absent)
    also have "\<dots> = (picked @ [x]) @ take (nat (limit - int (length (picked @ [x])))) xs"
      using d disj by (rule Cons.IH)
    also have "\<dots> = picked @ take (nat (limit - int (length picked))) (x # xs)"
      unfolding n by simp
    finally show ?thesis .
  qed
qed

lemma pick_keys_take:
  "distinct (concat (map (\<lambda>k. sort_key coll (bucket m k)) ks)) \<Longrightarrow>
   set (concat (map (\<lambda>k. sort_key coll (bucket m k)) ks)) \<inter> set picked = {} \<Longrightarrow>
   pick_keys coll limit m picked ks =
     picked @ take (nat (limit - int (length picked)))
       (concat (map (\<lambda>k. sort_key coll (bucket m k)) ks))"
proof (induction ks arbitrary: picked)
  case Nil
  then show ?case by simp
next
  case (Cons k ks)
  define xs where "xs = sort_key coll (bucket m k)"
  define rest where "rest = concat (map (\<lambda>k. sort_key coll (bucket m k)) ks)"
  define n where "n = nat (limit - int (length picked))"
  from Cons.prems have dxs: "distinct xs" and drest: "distinct rest"
    and cross: "set xs \<inter> set rest = {}"
    and fx: "set xs \<inter> set picked = {}" and fr: "set rest \<inter> set picked = {}"
    unfolding xs_def rest_def by auto
  have p': "pick_chars limit picked xs = picked @ take n xs"
    unfolding n_def using dxs fx by (rule pick_chars_take)
  show ?case
  proof (cases "limit \<le> int (length (picked @ take n xs))")
    case True
    then have "n \<le> length xs"
      unfolding n_def by (simp add: min_def split: if_splits)
    then have "take n (xs @ rest) = take n xs" by simp
    with True p' show ?thesis
      by (simp add: xs_def [symmetric] rest_def [symmetric] n_def [symmetric] Let_def)
  next
    case False
    then have big: "length xs < n"
      unfolding n_def by (simp add: min_def split: if_splits)
    then have t: "take n xs = xs" by simp
    have disj: "set rest \<inter> set (picked @ xs) = {}"
      using cross fr by auto
    have n': "nat (limit - int (length (picked @ xs))) = n - length xs"
      unfolding n_def by simp
    have "pick_keys coll limit m (picked @ xs) ks =
        (picked @ xs) @ take (nat (limit - int (length (picked @ xs)))) rest"
      unfolding rest_def using drest [unfolded rest_def] disj [unfolded rest_def]
      by (rule Cons.IH)
    then have "pick_keys coll limit m (picked @ xs) ks = picked @ take n (xs @ rest)"
      unfolding n' using big by simp
    with False p' t show ?thesis
      by (simp add: xs_def [symmetric] rest_def [symmetric] n_def [symmetric] Let_def)
  qed
qed

lemma distinct_concat_map:
  assumes "distinct ks" and each: "\<And>k. distinct (f k)"
    and disj: "\<And>k k'. k \<noteq> k' \<Longrightarrow> set (f k) \<inter> set (f k') = {}"
  shows "distinct (concat (map f ks))"
  using assms(1)
proof (induction ks)
  case Nil
  then show ?case by simp
next
  case (Cons k ks)
  have "set (f k) \<inter> set (f k') = {}" if "k' \<in> set ks" for k'
    using Cons.prems that by (intro disj) auto
  then have "set (f k) \<inter> set (concat (map f ks)) = {}"
    by auto
  with Cons each [of k] show ?case by simp
qed

lemma distinct_sorted_keys: "distinct (map fst m) \<Longrightarrow> distinct (sorted_keys m)"
  by (simp add: sorted_keys_def)

lemma set_sorted_keys: "set (sorted_keys m) = fst ` set m"
  by (simp add: sorted_keys_def)

lemma distinct_ordered_group: "distinct (ordered_chars coll (groupByStroke lib u))"
  unfolding ordered_chars_def
proof (rule distinct_concat_map)
  show "distinct (sorted_keys (groupByStroke lib u))"
    by (simp add: distinct_sorted_keys distinct_keys_group)
next
  fix k
  show "distinct (sort_key coll (bucket (groupByStroke lib u) k))"
    by (simp add: distinct_bucket_group)
next
  fix k k' :: int
  assume "k \<noteq> k'"
  then show "set (sort_key coll (bucket (groupByStroke lib u) k)) \<inter>
      set (sort_key coll (bucket (groupByStroke lib u) k')) = {}"
    by (auto simp: set_bucket_group)
qed

lemma set_ordered_chars:
  "distinct (map fst m) \<Longrightarrow> set (ordered_chars coll m) = map_chars m"
  by (simp add: ordered_chars_def map_chars_buckets set_sorted_keys)

lemma set_ordered_group:
  "set (ordered_chars coll (groupByStroke lib u)) = {c \<in> set u. classified lib c}"
  by (simp add: set_ordered_chars distinct_keys_group map_chars_group)

lemma total_group: "total_chars (groupByStroke lib u) = card {c \<in> set u. classified lib c}"
proof -
  have "card (set (ordered_chars code_order (groupByStroke lib u))) =
      length (ordered_chars code_order (groupByStroke lib u))"
    by (rule distinct_card) (rule distinct_ordered_group)
  then show ?thesis
    by (simp add: total_length_ordered [of _ code_order] set_ordered_group)
qed

lemma total_group_le: "total_chars (groupByStroke lib u) \<le> length u"
proof -
  have "card {c \<in> set u. classified lib c} \<le> card (set u)"
    by (rule card_mono) auto
  also have "\<dots> \<le> length u" by (rule card_length)
  finally show ?thesis by (simp add: total_group)
qed

lemma picked_chars_take:
  "picked_chars coll limit (groupByStroke lib u) =
     take (nat limit) (ordered_chars coll (groupByStroke lib u))"
proof -
  have "pick_keys coll limit (groupByStroke lib u) [] (sorted_keys (groupByStroke lib u)) =
      [] @ take (nat (limit - int (length ([] :: jschar list))))
        (concat (map (\<lambda>k. sort_key coll (bucket (groupByStroke lib u) k))
          (sorted_keys (groupByStroke lib u))))"
    by (rule pick_keys_take)
       (use distinct_ordered_group [of coll lib u] in \<open>simp_all add: ordered_chars_def\<close>)
  then show ?thesis
    by (simp add: picked_chars_def ordered_chars_def)
qed

lemma sorted_concat_map:
  fixes g :: "'a \<Rightarrow> int" and h :: "'a \<Rightarrow> 'k::linorder"
  shows "sorted_wrt (<) ks \<Longrightarrow> (\<And>k c. k \<in> set ks \<Longrightarrow> c \<in> set (f k) \<Longrightarrow> g c = k) \<Longrightarrow>
   (\<And>k. sorted (map h (f k))) \<Longrightarrow>
   sorted (map (\<lambda>c. (g c, h c)) (concat (map f ks)))"
proof (induction ks)
  case Nil
  then show ?case by simp
next
  case (Cons k ks)
  have block: "sorted (map (\<lambda>c. (g c, h c)) (f k))"
  proof -
    have e: "map (\<lambda>c. (g c, h c)) (f k) = map (Pair k) (map h (f k))"
      using Cons.prems(2) by simp
    have s: "sorted (map (Pair k) (map h (f k)))"
      using Cons.prems(3) [of k]
      by (simp add: sorted_wrt_map sorted_wrt_iff_nth_less less_eq_prod_def del: map_map)
    show ?thesis unfolding e by (rule s)
  qed
  have rest: "sorted (map (\<lambda>c. (g c, h c)) (concat (map f ks)))"
    using Cons.prems by (intro Cons.IH) auto
  have cross: "(g x, h x) \<le> (g y, h y)"
    if "x \<in> set (f k)" and "y \<in> set (concat (map f ks))" for x y
  proof -
    from that(2) obtain k' where k': "k' \<in> set ks" "y \<in> set (f k')" by auto
    have "g x = k" using Cons.prems(2) that(1) by simp
    moreover have "g y = k'" using Cons.prems(2) k' by simp
    moreover have "k < k'" using Cons.prems(1) k'(1) by simp
    ultimately show ?thesis by (simp add: less_eq_prod_def)
  qed
  show ?case
    using block rest cross by (auto simp: sorted_append)
qed

lemma sorted_ordered_group:
  "sorted (map (\<lambda>c. (stroke_key lib c, coll c)) (ordered_chars coll (groupByStroke lib u)))"
  unfolding ordered_chars_def
proof (rule sorted_concat_map)
  show "sorted_wrt (<) (sorted_keys (groupByStroke lib u))"
    by (simp add: strict_sorted_iff distinct_sorted_keys distinct_keys_group)
       (simp add: sorted_keys_def)
next
  fix k c
  assume "c \<in> set (sort_key coll (bucket (groupByStroke lib u) k))"
  then show "stroke_key lib c = k"
    by (simp add: set_bucket_group stroke_key_def)
next
  fix k
  show "sorted (map coll (sort_key coll (bucket (groupByStroke lib u) k)))"
    by simp
qed

lemma take_before_drop:
  assumes "sorted (map key xs)" and "x \<in> set (take n xs)" and "y \<in> set (drop n xs)"
  shows "key x \<le> key y"
proof -
  have "sorted (map key (take n xs) @ map key (drop n xs))"
    using assms(1) by (simp flip: map_append)
  then show ?thesis
    using assms(2,3) by (auto simp: sorted_append)
qed

lemma set_drop_distinct:
  "distinct xs \<Longrightarrow> set (drop n xs) = set xs - set (take n xs)"
proof -
  assume d: "distinct xs"
  have "distinct (take n xs @ drop n xs)" using d by simp
  then have "set (take n xs) \<inter> set (drop n xs) = {}"
    by (simp only: distinct_append)
  moreover have "set xs = set (take n xs) \<union> set (drop n xs)"
    by (metis append_take_drop_id set_append)
  ultimately show ?thesis by auto
qed

lemmas eval_defs =
  groupByStroke_def group_step_def strokeOf_def set_add_def total_chars_def sorted_keys_def
  bucket_def picked_chars_def select_def map_chars_def code_order_def order_first_length_def
  Let_def

text \<open>
  C1, as stated, fails: the truncation is decided on the number of bucketed characters,
  not on the size of the union. With a union of three characters of which the stroke
  library knows one, and the limit 2 (below the size of the union), nothing is truncated
  and the output has one character, not two. And a negative limit, which \<^verbatim>\<open>--limit -1\<close>
  gives, is below the size of every union while the output is empty.
\<close>

theorem C1_size_not_limit:
  "(2::int) < int (length [19968, 20108, 19977 :: nat]) \<and>
   total_chars (select lib_one code_order 2 [19968, 20108, 19977]) = 1 \<and>
   int (total_chars (select lib_one code_order 2 [19968, 20108, 19977])) \<noteq> 2 \<and>
   (- 1 :: int) < int (length [19968 :: nat]) \<and>
   total_chars (select lib_one code_order (- 1) [19968]) = 0 \<and>
   int (total_chars (select lib_one code_order (- 1) [19968])) \<noteq> - 1"
  by (simp add: eval_defs lib_one_def)

lemma groupByStroke_Nil: "groupByStroke lib [] = []"
  by (simp add: groupByStroke_def)

lemma select_nonpos: "L \<le> 0 \<Longrightarrow> select lib coll L u = []"
proof (cases "L < int (total_chars (groupByStroke lib u))")
  case True
  assume "L \<le> 0"
  with True show ?thesis
    by (simp add: select_def Let_def picked_chars_take groupByStroke_Nil)
next
  case False
  assume "L \<le> 0"
  with False have "total_chars (groupByStroke lib u) = 0"
    by linarith
  then have "card {c \<in> set u. classified lib c} = 0"
    unfolding total_group .
  then have "{c \<in> set u. classified lib c} = {}"
    by simp
  then have "fst ` set (groupByStroke lib u) = {}"
    by (auto simp: keys_group classified_def)
  then have "groupByStroke lib u = []"
    by simp
  with False show ?thesis
    by (simp add: select_def Let_def)
qed

text \<open>
  C1, amended: for every union and every limit \<open>L\<close> with \<open>0 \<le> L\<close> below the number of
  bucketed characters (the characters of the union that have a stroke count), the
  picked characters are the first \<open>L\<close> of the order "ascending stroke count, then
  collation within a bucket", the output holds exactly these \<open>L\<close> characters, and each
  of them is at most every dropped character in that order. When \<open>L\<close> is at least the
  number of bucketed characters nothing is truncated, also when \<open>L\<close> is below the size of
  the union. With \<open>L \<le> 0\<close> the output is empty.
\<close>

theorem C1_truncation:
  "(0 \<le> L \<and> L < int (total_chars (groupByStroke lib u)) \<longrightarrow>
     picked_chars coll L (groupByStroke lib u) =
       take (nat L) (ordered_chars coll (groupByStroke lib u)) \<and>
     int (length (picked_chars coll L (groupByStroke lib u))) = L \<and>
     select lib coll L u = groupByStroke lib (picked_chars coll L (groupByStroke lib u)) \<and>
     int (total_chars (select lib coll L u)) = L \<and>
     map_chars (select lib coll L u) = set (picked_chars coll L (groupByStroke lib u)) \<and>
     map_chars (select lib coll L u) \<subseteq> map_chars (groupByStroke lib u) \<and>
     (\<forall>x \<in> map_chars (select lib coll L u).
        \<forall>y \<in> map_chars (groupByStroke lib u) - map_chars (select lib coll L u).
          stroke_key lib x < stroke_key lib y \<or>
          (stroke_key lib x = stroke_key lib y \<and> coll x \<le> coll y))) \<and>
   (int (total_chars (groupByStroke lib u)) \<le> L \<longrightarrow>
     select lib coll L u = groupByStroke lib u \<and>
     map_chars (select lib coll L u) = {c \<in> set u. classified lib c} \<and>
     total_chars (select lib coll L u) = card {c \<in> set u. classified lib c}) \<and>
   (L \<le> 0 \<longrightarrow> select lib coll L u = [] \<and> total_chars (select lib coll L u) = 0)"
proof -
  have trunc: "picked_chars coll L (groupByStroke lib u) =
       take (nat L) (ordered_chars coll (groupByStroke lib u)) \<and>
     int (length (picked_chars coll L (groupByStroke lib u))) = L \<and>
     select lib coll L u = groupByStroke lib (picked_chars coll L (groupByStroke lib u)) \<and>
     int (total_chars (select lib coll L u)) = L \<and>
     map_chars (select lib coll L u) = set (picked_chars coll L (groupByStroke lib u)) \<and>
     map_chars (select lib coll L u) \<subseteq> map_chars (groupByStroke lib u) \<and>
     (\<forall>x \<in> map_chars (select lib coll L u).
        \<forall>y \<in> map_chars (groupByStroke lib u) - map_chars (select lib coll L u).
          stroke_key lib x < stroke_key lib y \<or>
          (stroke_key lib x = stroke_key lib y \<and> coll x \<le> coll y))"
    if L0: "0 \<le> L" and Lt: "L < int (total_chars (groupByStroke lib u))"
  proof -
    define m where "m = groupByStroke lib u"
    define ord where "ord = ordered_chars coll m"
    define picked where "picked = picked_chars coll L m"
    have len: "nat L < length ord"
      using L0 Lt by (simp add: ord_def m_def total_length_ordered [of _ coll])
    have pk: "picked = take (nat L) ord"
      by (simp add: picked_def ord_def m_def picked_chars_take)
    have dord: "distinct ord"
      by (simp add: ord_def m_def distinct_ordered_group)
    have sord: "set ord = {c \<in> set u. classified lib c}"
      by (simp add: ord_def m_def set_ordered_group)
    have mord: "map_chars m = set ord"
      by (simp add: m_def sord map_chars_group)
    have lp: "int (length picked) = L"
      using len L0 by (simp add: pk)
    have dp: "distinct picked"
      using dord by (simp add: pk)
    have sub: "set picked \<subseteq> set ord"
      unfolding pk by (rule set_take_subset)
    have sel: "select lib coll L u = groupByStroke lib picked"
      using Lt by (simp add: select_def picked_def m_def Let_def)
    have mc: "map_chars (groupByStroke lib picked) = set picked"
      using sub sord by (auto simp: map_chars_group)
    have tot: "int (total_chars (groupByStroke lib picked)) = L"
    proof -
      have "{c \<in> set picked. classified lib c} = set picked"
        using sub sord by auto
      then have "total_chars (groupByStroke lib picked) = card (set picked)"
        by (simp add: total_group)
      also have "\<dots> = length picked"
        using dp by (rule distinct_card)
      finally show ?thesis using lp by simp
    qed
    have order: "stroke_key lib x < stroke_key lib y \<or>
        (stroke_key lib x = stroke_key lib y \<and> coll x \<le> coll y)"
      if x: "x \<in> set picked" and y: "y \<in> set ord - set picked" for x y
    proof -
      have "y \<in> set (drop (nat L) ord)"
        using y dord by (simp add: set_drop_distinct pk)
      moreover have "sorted (map (\<lambda>c. (stroke_key lib c, coll c)) ord)"
        unfolding ord_def m_def by (rule sorted_ordered_group)
      ultimately have "(stroke_key lib x, coll x) \<le> (stroke_key lib y, coll y)"
        using x unfolding pk
        by (intro take_before_drop [where key = "\<lambda>c. (stroke_key lib c, coll c)"])
      then show ?thesis
        by (auto simp: less_eq_prod_def)
    qed
    show ?thesis
      using pk lp sel tot mc sub order
      unfolding picked_def ord_def m_def [symmetric] mord
      by (simp add: m_def [symmetric] picked_def [symmetric] mord)
  qed
  have keep: "select lib coll L u = groupByStroke lib u \<and>
     map_chars (select lib coll L u) = {c \<in> set u. classified lib c} \<and>
     total_chars (select lib coll L u) = card {c \<in> set u. classified lib c}"
    if "int (total_chars (groupByStroke lib u)) \<le> L"
  proof -
    from that have "select lib coll L u = groupByStroke lib u"
      by (simp add: select_def Let_def)
    then show ?thesis
      by (simp add: map_chars_group total_group)
  qed
  have none: "select lib coll L u = [] \<and> total_chars (select lib coll L u) = 0" if "L \<le> 0"
    using that by (simp add: select_nonpos total_chars_def sorted_keys_def)
  from trunc keep none show ?thesis by blast
qed

theorem C1_truncation_witness:
  "(0::int) \<le> 2 \<and> (2::int) < int (total_chars (groupByStroke lib_basic [20108, 19968, 20057])) \<and>
   ordered_chars code_order (groupByStroke lib_basic [20108, 19968, 20057]) =
     [19968, 20057, 20108] \<and>
   picked_chars code_order 2 (groupByStroke lib_basic [20108, 19968, 20057]) = [19968, 20057] \<and>
   select lib_basic code_order 2 [20108, 19968, 20057] = [(1, [19968, 20057])] \<and>
   int (total_chars (select lib_basic code_order 2 [20108, 19968, 20057])) = 2 \<and>
   int (total_chars (groupByStroke lib_one [19968, 20108, 19977])) \<le> 2 \<and>
   (2::int) < int (length [19968, 20108, 19977 :: nat]) \<and>
   select lib_one code_order 2 [19968, 20108, 19977] = [(1, [19968])] \<and>
   (- 1 :: int) \<le> 0 \<and> select lib_one code_order (- 1) [19968] = []"
proof -
  have h: "(0::int) \<le> 2 \<and>
      (2::int) < int (total_chars (groupByStroke lib_basic [20108, 19968, 20057]))"
    by (simp add: eval_defs lib_basic_def)
  have o: "ordered_chars code_order (groupByStroke lib_basic [20108, 19968, 20057]) =
      [19968, 20057, 20108]"
    by (simp add: eval_defs ordered_chars_def lib_basic_def)
  have s: "select lib_basic code_order 2 [20108, 19968, 20057] = [(1, [19968, 20057])]"
    by (simp add: eval_defs lib_basic_def)
  have k: "int (total_chars (groupByStroke lib_one [19968, 20108, 19977])) \<le> 2"
    by (simp add: eval_defs lib_one_def)
  have g: "groupByStroke lib_one [19968, 20108, 19977] = [(1, [19968])]"
    by (simp add: eval_defs lib_one_def)
  have n: "(- 1 :: int) \<le> 0" by simp
  from C1_truncation [of 2 lib_basic "[20108, 19968, 20057]" code_order] h
  have "picked_chars code_order 2 (groupByStroke lib_basic [20108, 19968, 20057]) =
      take (nat 2) (ordered_chars code_order (groupByStroke lib_basic [20108, 19968, 20057]))"
    and "int (total_chars (select lib_basic code_order 2 [20108, 19968, 20057])) = 2"
    by blast+
  moreover from C1_truncation [of 2 lib_one "[19968, 20108, 19977]" code_order] k
  have "select lib_one code_order 2 [19968, 20108, 19977] =
      groupByStroke lib_one [19968, 20108, 19977]"
    by blast
  moreover from C1_truncation [of "- 1" lib_one "[19968]" code_order] n
  have "select lib_one code_order (- 1) [19968] = []"
    by blast
  ultimately show ?thesis
    using h o s k g by (simp add: numeral_2_eq_2)
qed

text \<open>
  C2, as stated, fails: a character of the union without a stroke count gets no bucket,
  so it is missing from the output although the limit is above the size of the union.
\<close>

theorem C2_unknown_dropped:
  "int (length [19968, 20108 :: nat]) \<le> 5 \<and>
   select lib_one code_order 5 [19968, 20108] = [(1, [19968])] \<and>
   map_chars (select lib_one code_order 5 [19968, 20108]) \<noteq> set [19968, 20108]"
  by (simp add: eval_defs lib_one_def)

text \<open>
  C2, amended: for every union and every limit at least the size of the union, nothing is
  truncated, and the characters of the output are the characters of the union that have
  a stroke count; when every character of the union has one, the output holds the full
  union.
\<close>

theorem C2_no_truncation:
  "int (length u) \<le> L \<Longrightarrow>
   select lib coll L u = groupByStroke lib u \<and>
   map_chars (select lib coll L u) = {c \<in> set u. classified lib c} \<and>
   ((\<forall>c \<in> set u. classified lib c) \<longrightarrow> map_chars (select lib coll L u) = set u)"
proof -
  assume "int (length u) \<le> L"
  moreover have "int (total_chars (groupByStroke lib u)) \<le> int (length u)"
    using total_group_le [of lib u] by simp
  ultimately have "select lib coll L u = groupByStroke lib u"
    by (simp add: select_def Let_def)
  then show ?thesis
    by (auto simp: map_chars_group)
qed

theorem C2_no_truncation_witness:
  "int (length [20108, 19968, 20057 :: nat]) \<le> 3 \<and>
   select lib_basic code_order 3 [20108, 19968, 20057] = [(2, [20108]), (1, [19968, 20057])] \<and>
   map_chars (select lib_basic code_order 3 [20108, 19968, 20057]) = set [20108, 19968, 20057]"
proof -
  have h: "int (length [20108, 19968, 20057 :: nat]) \<le> 3"
    by simp
  have c: "\<forall>c \<in> set [20108, 19968, 20057 :: nat]. classified lib_basic c"
    by (simp add: classified_def strokeOf_def lib_basic_def)
  have g: "groupByStroke lib_basic [20108, 19968, 20057] = [(2, [20108]), (1, [19968, 20057])]"
    by (simp add: eval_defs lib_basic_def)
  from C2_no_truncation [OF h, of lib_basic code_order] c
  have "select lib_basic code_order 3 [20108, 19968, 20057] =
      groupByStroke lib_basic [20108, 19968, 20057]"
    and "map_chars (select lib_basic code_order 3 [20108, 19968, 20057]) =
      set [20108, 19968, 20057]"
    by blast+
  with h g show ?thesis by (simp only: simp_thms)
qed

section \<open>CandidateAggregator: the union\<close>

lemma set_add_token:
  "set (add_token tok s) = set s \<union> token_chars [tok]"
  by (auto simp: add_token_def token_chars_def set_set_add split: list.splits)

lemma distinct_add_token: "distinct s \<Longrightarrow> distinct (add_token tok s)"
  by (simp add: add_token_def distinct_set_add split: list.splits)

lemma token_chars_Cons: "token_chars (t # ts) = token_chars [t] \<union> token_chars ts"
  by (auto simp: token_chars_def)

lemma set_fold_add_token:
  "set (fold add_token toks s) = set s \<union> token_chars toks"
proof (induction toks arbitrary: s)
  case Nil
  then show ?case by (simp add: token_chars_def)
next
  case (Cons t toks)
  show ?case
    using token_chars_Cons [of t toks] by (auto simp: Cons.IH set_add_token)
qed

lemma distinct_fold_add_token: "distinct s \<Longrightarrow> distinct (fold add_token toks s)"
  by (induction toks arbitrary: s) (simp_all add: distinct_add_token)

lemma fold_add_token_present:
  "token_chars toks \<subseteq> set s \<Longrightarrow> fold add_token toks s = s"
proof (induction toks)
  case Nil
  then show ?case by simp
next
  case (Cons t toks)
  from Cons.prems have here: "token_chars [t] \<subseteq> set s" and rest: "token_chars toks \<subseteq> set s"
    by (auto simp: token_chars_def)
  from here have "add_token t s = s"
    by (auto simp: add_token_def token_chars_def set_add_present split: list.splits)
  with Cons.IH [OF rest] show ?case by simp
qed

lemma distinct_parse_line: "distinct s \<Longrightarrow> distinct (parse_line line s)"
  by (simp add: parse_line_def distinct_fold_add_token split: option.splits)

lemma distinct_fold_parse_line: "distinct s \<Longrightarrow> distinct (fold parse_line ls s)"
  by (induction ls arbitrary: s) (simp_all add: distinct_parse_line)

lemma distinct_parseExistingChars: "distinct (parseExistingChars text)"
  by (simp add: parseExistingChars_def distinct_fold_parse_line)

lemma distinct_buildCandidateSet: "distinct buildCandidateSet"
  using distinct_add_all [of "[]" heuristicCandidates]
  by (simp add: buildCandidateSet_def add_all_def)

lemma set_include_add: "set (include_add inc u) = set u \<union> include_chars inc"
  by (simp add: include_add_def include_chars_def set_fold_add_token split: option.splits)

lemma distinct_include_add: "distinct u \<Longrightarrow> distinct (include_add inc u)"
  by (simp add: include_add_def distinct_fold_add_token split: option.splits)

lemma include_add_present: "include_chars inc \<subseteq> set u \<Longrightarrow> include_add inc u = u"
  by (simp add: include_add_def include_chars_def fold_add_token_present split: option.splits)

lemma set_fold_include_add:
  "set (fold include_add incs u) = set u \<union> (\<Union>inc \<in> set incs. include_chars inc)"
  by (induction incs arbitrary: u) (auto simp: set_include_add)

lemma distinct_fold_include_add: "distinct u \<Longrightarrow> distinct (fold include_add incs u)"
  by (induction incs arbitrary: u) (simp_all add: distinct_include_add)

lemma set_union_before_fonts:
  "set (union_before_fonts src) =
     set (parseExistingChars (content src)) \<union> set buildCandidateSet \<union>
     (\<Union>inc \<in> set (includeFiles src). include_chars inc)"
  by (auto simp: union_before_fonts_def set_fold_include_add set_add_all)

lemma distinct_union_before_fonts: "distinct (union_before_fonts src)"
  by (simp add: union_before_fonts_def distinct_fold_include_add distinct_add_all
      distinct_parseExistingChars)

lemma set_add_fonts:
  "set (add_fonts extra u) =
     set u \<union> (case extra of None \<Rightarrow> {} | Some (chars, log) \<Rightarrow> set chars)"
  by (auto simp: add_fonts_def set_add_all split: option.splits)

lemma distinct_add_fonts: "distinct u \<Longrightarrow> distinct (add_fonts extra u)"
  by (simp add: add_fonts_def distinct_add_all split: option.splits prod.splits)

lemma set_main_union:
  "set (main_union src) =
     set (parseExistingChars (content src)) \<union> set buildCandidateSet \<union>
     (\<Union>inc \<in> set (includeFiles src). include_chars inc) \<union>
     (case extractCharsFromFonts (is_font src) (fontDir src) (fontListing src) of
        None \<Rightarrow> {} | Some (chars, log) \<Rightarrow> set chars)"
  by (simp add: main_union_def set_add_fonts set_union_before_fonts)

lemma distinct_main_union: "distinct (main_union src)"
  by (simp add: main_union_def distinct_add_fonts distinct_union_before_fonts)

lemma length_main_union: "length (main_union src) = card (set (main_union src))"
  by (simp add: distinct_card distinct_main_union)

text \<open>
  C7: adding a character that is already in the union leaves its size as it is; adding
  the same characters twice is adding them once; the characters of the union do not
  depend on the order in which two lists are added, nor (with them the size of the
  union) on the order or repetition of the include files; and an include file whose
  characters are all baseline characters leaves the size of the union unchanged,
  wherever it stands among the include files.
\<close>

theorem C7_union_dedup:
  "(x \<in> set u \<longrightarrow> length (set_add x u) = length u) \<and>
   add_all xs (add_all xs u) = add_all xs u \<and>
   set (add_all xs (add_all ys u)) = set (add_all ys (add_all xs u)) \<and>
   (distinct u \<longrightarrow> length (add_all xs (add_all ys u)) = length (add_all ys (add_all xs u))) \<and>
   (set incs = set incs' \<longrightarrow>
      set (main_union (src\<lparr>includeFiles := incs\<rparr>)) =
        set (main_union (src\<lparr>includeFiles := incs'\<rparr>)) \<and>
      length (main_union (src\<lparr>includeFiles := incs\<rparr>)) =
        length (main_union (src\<lparr>includeFiles := incs'\<rparr>))) \<and>
   (include_chars inc \<subseteq> set (parseExistingChars (content src)) \<longrightarrow>
      length (main_union (src\<lparr>includeFiles := before @ inc # after\<rparr>)) =
        length (main_union (src\<lparr>includeFiles := before @ after\<rparr>)))"
proof -
  have a: "x \<in> set u \<longrightarrow> length (set_add x u) = length u"
    by (simp add: set_add_present)
  have b: "add_all xs (add_all xs u) = add_all xs u"
    by (rule add_all_subset) (simp add: set_add_all)
  have c: "set (add_all xs (add_all ys u)) = set (add_all ys (add_all xs u))"
    by (auto simp: set_add_all)
  have d: "length (add_all xs (add_all ys u)) = length (add_all ys (add_all xs u))"
    if "distinct u"
  proof -
    have "distinct (add_all xs (add_all ys u))" "distinct (add_all ys (add_all xs u))"
      using that by (simp_all add: distinct_add_all)
    then have "length (add_all xs (add_all ys u)) = card (set (add_all xs (add_all ys u)))"
      and "length (add_all ys (add_all xs u)) = card (set (add_all ys (add_all xs u)))"
      by (simp_all add: distinct_card)
    with c show ?thesis by simp
  qed
  have e: "set (main_union (src\<lparr>includeFiles := incs\<rparr>)) =
        set (main_union (src\<lparr>includeFiles := incs'\<rparr>)) \<and>
      length (main_union (src\<lparr>includeFiles := incs\<rparr>)) =
        length (main_union (src\<lparr>includeFiles := incs'\<rparr>))"
    if "set incs = set incs'"
    using that by (simp add: length_main_union set_main_union)
  have f: "length (main_union (src\<lparr>includeFiles := before @ inc # after\<rparr>)) =
        length (main_union (src\<lparr>includeFiles := before @ after\<rparr>))"
    if "include_chars inc \<subseteq> set (parseExistingChars (content src))"
  proof -
    have "set (main_union (src\<lparr>includeFiles := before @ inc # after\<rparr>)) =
        set (main_union (src\<lparr>includeFiles := before @ after\<rparr>))"
      using that by (auto simp: set_main_union)
    then show ?thesis by (simp add: length_main_union)
  qed
  from a b c d e f show ?thesis by blast
qed

lemmas parse_defs =
  parseExistingChars_def parse_line_def match_line_def line_tokens_def add_token_def trim_def
  is_space_def is_digit_def in_class_def hua_def dot_plus_end_def is_line_terminator_def
  set_add_def

lemma parse_src_one: "parseExistingChars (content src_one) = [19968]"
  by (simp add: src_one_def parse_defs)

lemma include_chars_one: "include_chars (Some [19968]) = {19968}"
  by (auto simp: include_chars_def include_tokens_def token_chars_def is_sep_def trim_def
      is_space_def)

theorem C7_union_dedup_witness:
  "(19968::nat) \<in> set [19968] \<and> length (set_add (19968::nat) [19968]) = length [19968::nat] \<and>
   distinct [19968::nat] \<and> set [Some [19968::nat], None] = set [None, Some [19968], None] \<and>
   include_chars (Some [19968]) \<subseteq> set (parseExistingChars (content src_one)) \<and>
   length (main_union (src_one\<lparr>includeFiles := [None, Some [19968], None]\<rparr>)) =
     length (main_union (src_one\<lparr>includeFiles := [None, None]\<rparr>)) \<and>
   length (main_union (src_one\<lparr>includeFiles := [Some [19968], None]\<rparr>)) =
     length (main_union (src_one\<lparr>includeFiles := [None, Some [19968], None]\<rparr>))"
proof -
  have h: "include_chars (Some [19968]) \<subseteq> set (parseExistingChars (content src_one))"
    by (simp add: parse_src_one include_chars_one)
  have s: "set [Some [19968::nat], None] = set [None, Some [19968], None]"
    by auto
  from C7_union_dedup [of "19968::nat" "[19968]" "[]" "[]" "[Some [19968], None]"
      "[None, Some [19968], None]" src_one "Some [19968]" "[None]" "[None]"] h s
  show ?thesis by simp
qed

section \<open>CharsetLoader: what it lets through\<close>

text \<open>
  C5 fails on \<^verbatim>\<open>parseExistingChars\<close>: the comment on line 45 says that items outside
  the Chinese range are skipped, but the code tests only \<^verbatim>\<open>ch.length === 1\<close>. The
  baseline line \<^verbatim>\<open>1\<close> U+753B tab \<^verbatim>\<open>A B\<close> yields the characters \<^verbatim>\<open>A\<close> and \<^verbatim>\<open>B\<close>, which
  are not in the block U+4E00 to U+9FFF.
\<close>

theorem C5_loader_keeps_latin:
  "parseExistingChars [49, 30011, 9, 65, 32, 66] = [65, 66] \<and> \<not> isCJK 65 \<and> \<not> isCJK 66"
  by (simp add: parse_defs isCJK_def)

text \<open>The other two sources of characters do stay in the block: the candidate pool and
  the characters taken from fonts.\<close>

lemma candidates_in_block: "list_all isCJK heuristicCandidates"
  by (simp add: heuristicCandidates_def heuristic_literal_def isCJK_def is_space_def)

lemma add_glyph_in_block:
  "list_all isCJK chars \<Longrightarrow> list_all isCJK (add_glyph code chars)"
  by (simp add: add_glyph_def set_add_def isCJK_def)

section \<open>String functions: trim, indexOf and substrings\<close>

lemma dropWhile_hd_self: "xs \<noteq> [] \<Longrightarrow> \<not> P (hd xs) \<Longrightarrow> dropWhile P xs = xs"
  by (cases xs) auto

lemma last_dropWhile: "dropWhile P xs \<noteq> [] \<Longrightarrow> last (dropWhile P xs) = last xs"
  by (induction xs) (auto split: if_splits)

lemma trim_Nil: "trim [] = []"
  by (simp add: trim_def)

lemma trim_sandwich:
  assumes "\<forall>a \<in> set A. is_space a" and "\<forall>c \<in> set C. is_space c"
    and "M \<noteq> []" and "\<not> is_space (hd M)" and "\<not> is_space (last M)"
  shows "trim (A @ M @ C) = M"
proof -
  have "dropWhile is_space (A @ M @ C) = dropWhile is_space (M @ C)"
    using assms(1) by (simp add: dropWhile_append2)
  also have "\<dots> = M @ C"
    using assms(3,4) by (intro dropWhile_hd_self) auto
  finally have l: "dropWhile is_space (A @ M @ C) = M @ C" .
  have "dropWhile is_space (rev C @ rev M) = dropWhile is_space (rev M)"
    by (rule dropWhile_append2) (use assms(2) in auto)
  also have "\<dots> = rev M"
    using assms(3,5) by (intro dropWhile_hd_self) (auto simp: hd_rev)
  finally show ?thesis
    by (simp add: trim_def l)
qed

lemma trim_self: "M \<noteq> [] \<Longrightarrow> \<not> is_space (hd M) \<Longrightarrow> \<not> is_space (last M) \<Longrightarrow> trim M = M"
  using trim_sandwich [of "[]" "[]" M] by simp

lemma trim_all_space: "\<forall>a \<in> set A. is_space a \<Longrightarrow> trim A = []"
  by (auto simp: trim_def dest: set_dropWhileD)

lemma trim_ends:
  assumes "trim s \<noteq> []"
  shows "\<not> is_space (hd (trim s))" and "\<not> is_space (last (trim s))"
proof -
  define t where "t = dropWhile is_space s"
  define r where "r = dropWhile is_space (rev t)"
  have tr: "trim s = rev r" by (simp add: trim_def t_def r_def)
  with assms have rn: "r \<noteq> []" by simp
  then have tn: "t \<noteq> []" by (auto simp: r_def)
  have "\<not> is_space (hd r)"
    using rn unfolding r_def by (rule hd_dropWhile)
  then show "\<not> is_space (last (trim s))"
    using rn by (simp add: tr last_rev)
  have "last r = last (rev t)"
    using rn unfolding r_def by (rule last_dropWhile)
  also have "\<dots> = hd t" using tn by (simp add: last_rev)
  finally have "hd (trim s) = hd t" using rn by (simp add: tr hd_rev)
  moreover have "\<not> is_space (hd t)"
    using tn unfolding t_def by (rule hd_dropWhile)
  ultimately show "\<not> is_space (hd (trim s))" by simp
qed

lemma trim_decomp:
  "\<exists>A C. s = A @ trim s @ C \<and> (\<forall>a \<in> set A. is_space a) \<and> (\<forall>c \<in> set C. is_space c)"
proof -
  define t where "t = dropWhile is_space s"
  have s: "s = takeWhile is_space s @ t"
    by (simp add: t_def)
  have "rev (takeWhile is_space (rev t) @ dropWhile is_space (rev t)) = t"
    by (simp only: takeWhile_dropWhile_id rev_rev_ident)
  then have "rev (dropWhile is_space (rev t)) @ rev (takeWhile is_space (rev t)) = t"
    by (simp only: rev_append)
  then have t: "t = trim s @ rev (takeWhile is_space (rev t))"
    by (simp only: trim_def t_def)
  have "s = takeWhile is_space s @ trim s @ rev (takeWhile is_space (rev t))"
    using s t by simp
  moreover have "\<forall>a \<in> set (takeWhile is_space s). is_space a"
    by (auto dest: set_takeWhileD)
  moreover have "\<forall>c \<in> set (rev (takeWhile is_space (rev t))). is_space c"
    by (auto dest: set_takeWhileD)
  ultimately show ?thesis by blast
qed

lemma sublist_trim: "sublist (trim s) s"
  using trim_decomp [of s] by (auto simp: sublist_def)

lemma trim_eq_self_iff:
  "trim s = s \<longleftrightarrow> s = [] \<or> (\<not> is_space (hd s) \<and> \<not> is_space (last s))"
  using trim_ends [of s] trim_self [of s] by (cases "s = []") (auto simp: trim_Nil)

lemma indexOf_first:
  "indexOf n s = Some i \<Longrightarrow>
   i \<le> length s \<and> prefix n (drop i s) \<and> (\<forall>j < i. \<not> prefix n (drop j s))"
proof (induction s arbitrary: i)
  case Nil
  then show ?case by (simp split: if_splits)
next
  case (Cons c cs)
  show ?case
  proof (cases "prefix n (c # cs)")
    case True
    with Cons.prems show ?thesis by simp
  next
    case False
    with Cons.prems obtain i' where i': "indexOf n cs = Some i'" "i = Suc i'"
      by auto
    from Cons.IH [OF i'(1)] False i'(2) show ?thesis
      by (auto simp: less_Suc_eq_0_disj)
  qed
qed

lemma indexOf_before:
  "indexOf n s = Some i \<Longrightarrow> n \<noteq> [] \<Longrightarrow> \<not> sublist n (take i s)"
proof (induction s arbitrary: i)
  case Nil
  then show ?case by simp
next
  case (Cons c cs)
  show ?case
  proof (cases "prefix n (c # cs)")
    case True
    with Cons.prems show ?thesis by simp
  next
    case False
    with Cons.prems obtain i' where i': "indexOf n cs = Some i'" "i = Suc i'"
      by auto
    have "\<not> prefix n (c # take i' cs)"
    proof
      assume "prefix n (c # take i' cs)"
      moreover have "prefix (c # take i' cs) (c # cs)"
        by (simp add: take_is_prefix)
      ultimately have "prefix n (c # cs)" by (rule prefix_order.trans)
      with False show False by simp
    qed
    moreover have "\<not> sublist n (take i' cs)"
      using i'(1) Cons.prems(2) by (rule Cons.IH)
    ultimately show ?thesis
      by (simp add: i'(2) sublist_Cons_right)
  qed
qed

lemma indexOf_None: "indexOf n s = None \<Longrightarrow> \<not> sublist n s"
proof (induction s)
  case Nil
  then show ?case by (simp split: if_splits)
next
  case (Cons c cs)
  then show ?case by (auto simp: sublist_Cons_right split: if_splits)
qed

lemma prefix_avoid:
  assumes "c \<notin> set w" and "prefix w (A @ c # B)"
  shows "prefix w A"
  using assms by (auto simp: prefix_append prefix_Cons)

lemma sublist_split:
  "c \<notin> set w \<Longrightarrow> sublist w (xs @ c # ys) \<Longrightarrow> sublist w xs \<or> sublist w ys"
proof (induction xs)
  case Nil
  then show ?case
    by (cases w) (auto simp: sublist_Cons_right prefix_Cons)
next
  case (Cons x xs)
  from Cons.prems(2) have "prefix w ((x # xs) @ c # ys) \<or> sublist w (xs @ c # ys)"
    by (simp add: sublist_Cons_right)
  then show ?case
  proof
    assume "prefix w ((x # xs) @ c # ys)"
    with Cons.prems(1) have "prefix w (x # xs)" by (rule prefix_avoid)
    then show ?thesis by (auto intro: prefix_imp_sublist)
  next
    assume "sublist w (xs @ c # ys)"
    with Cons.IH Cons.prems(1) show ?thesis
      by (auto simp: sublist_Cons_right)
  qed
qed

section \<open>Formatter: the limit 0\<close>

lemma prefix_region_ends:
  "prefix_region raw \<noteq> [] \<Longrightarrow>
   \<not> is_space (hd (prefix_region raw)) \<and> \<not> is_space (last (prefix_region raw))"
  by (auto simp: prefix_region_def trim_ends split: option.splits)

lemma suffix_region_ends:
  "suffix_region raw \<noteq> [] \<Longrightarrow>
   \<not> is_space (hd (suffix_region raw)) \<and> \<not> is_space (last (suffix_region raw))"
  by (auto simp: suffix_region_def trim_ends split: option.splits)

lemma select_zero: "select lib coll 0 u = []"
  by (rule select_nonpos) simp

lemma render_body_Nil: "render_body coll [] = []"
  by (simp add: render_body_def sorted_keys_def)

lemma trim_regions:
  assumes P: "P \<noteq> [] \<Longrightarrow> \<not> is_space (hd P) \<and> \<not> is_space (last P)"
    and S: "S \<noteq> [] \<Longrightarrow> \<not> is_space (hd S) \<and> \<not> is_space (last S)"
  shows "trim (P @ [10, 10, 10, 10] @ S) =
     (if P = [] then S else if S = [] then P else P @ [10, 10, 10, 10] @ S)"
proof -
  have nl: "\<forall>a \<in> set [10, 10, 10, 10 :: nat]. is_space a"
    by (simp add: is_space_def)
  show ?thesis
  proof (cases "P = []")
    case True
    show ?thesis
    proof (cases "S = []")
      case True
      with \<open>P = []\<close> nl show ?thesis by (simp add: trim_all_space)
    next
      case False
      with S have "trim ([10, 10, 10, 10] @ S @ []) = S"
        by (intro trim_sandwich nl) auto
      with \<open>P = []\<close> show ?thesis by simp
    qed
  next
    case False
    show ?thesis
    proof (cases "S = []")
      case True
      from False P have "trim ([] @ P @ [10, 10, 10, 10]) = P"
        by (intro trim_sandwich nl) auto
      with True False show ?thesis by simp
    next
      case Sn: False
      have "trim (P @ [10, 10, 10, 10] @ S) = P @ [10, 10, 10, 10] @ S"
        using False Sn P S by (intro trim_self) auto
      with False Sn show ?thesis by simp
    qed
  qed
qed

text \<open>
  Were the limit 0, the truncation would pick nothing (also from a non-empty classified
  union), the stroke map would be empty and so the body; the document would be the
  prefix region, four line feeds where the body would stand, the suffix region and a
  final line feed, trimmed of surrounding white space.
\<close>

lemma limit_zero_document:
  "(0 < total_chars (groupByStroke lib u) \<longrightarrow> picked_chars coll 0 (groupByStroke lib u) = []) \<and>
   select lib coll 0 u = [] \<and>
   render_body coll (select lib coll 0 u) = [] \<and>
   formatOutput coll raw (select lib coll 0 u) =
     trim (prefix_region raw @ [10, 10] @ [] @ [10, 10] @ suffix_region raw) @ [10] \<and>
   (prefix_region raw \<noteq> [] \<and> suffix_region raw \<noteq> [] \<longrightarrow>
      formatOutput coll raw (select lib coll 0 u) =
        prefix_region raw @ [10, 10, 10, 10] @ suffix_region raw @ [10]) \<and>
   (prefix_region raw = [] \<longrightarrow>
      formatOutput coll raw (select lib coll 0 u) = suffix_region raw @ [10]) \<and>
   (suffix_region raw = [] \<longrightarrow>
      formatOutput coll raw (select lib coll 0 u) = prefix_region raw @ [10])"
proof -
  let ?out = "formatOutput coll raw (select lib coll 0 u)"
  have p: "0 < total_chars (groupByStroke lib u) \<longrightarrow>
      picked_chars coll 0 (groupByStroke lib u) = []"
    by (simp add: picked_chars_take)
  have b: "render_body coll (select lib coll 0 u) = []"
    by (simp add: select_zero render_body_Nil)
  have f0: "?out = trim (prefix_region raw @ [10, 10] @ [] @ [10, 10] @ suffix_region raw) @ [10]"
    by (simp add: formatOutput_def select_zero render_body_Nil)
  then have f: "?out = trim (prefix_region raw @ [10, 10, 10, 10] @ suffix_region raw) @ [10]"
    by simp
  have t: "trim (prefix_region raw @ [10, 10, 10, 10] @ suffix_region raw) =
     (if prefix_region raw = [] then suffix_region raw
      else if suffix_region raw = [] then prefix_region raw
      else prefix_region raw @ [10, 10, 10, 10] @ suffix_region raw)"
    by (rule trim_regions) (simp_all add: prefix_region_ends suffix_region_ends)
  have both: "prefix_region raw \<noteq> [] \<and> suffix_region raw \<noteq> [] \<longrightarrow>
      ?out = prefix_region raw @ [10, 10, 10, 10] @ suffix_region raw @ [10]"
    unfolding f t by simp
  have nop: "prefix_region raw = [] \<longrightarrow> ?out = suffix_region raw @ [10]"
    unfolding f t by simp
  have nos: "suffix_region raw = [] \<longrightarrow> ?out = prefix_region raw @ [10]"
    unfolding f t by simp
  from p select_zero [of lib coll u] b f0 both nop nos show ?thesis
    by (intro conjI)
qed

lemmas region_defs =
  prefix_region_def suffix_region_def prefix_anchor_def suffix_anchor_def trim_def is_space_def

lemma prefix_region_sample: "prefix_region doc_sample = [104]"
  by (simp add: doc_sample_def region_defs)

lemma suffix_region_sample: "suffix_region doc_sample = suffix_anchor"
  by (simp add: doc_sample_def region_defs)

lemma limit_zero_document_sample:
  "formatOutput code_order doc_sample (select lib_basic code_order 0 [20108, 19968, 20057]) =
     [104, 10, 10, 10, 10] @ suffix_anchor @ [10]"
proof -
  have "prefix_region doc_sample \<noteq> [] \<and> suffix_region doc_sample \<noteq> []"
    by (simp add: prefix_region_sample suffix_region_sample suffix_anchor_def)
  with limit_zero_document [of lib_basic "[20108, 19968, 20057]" code_order doc_sample]
  have "formatOutput code_order doc_sample (select lib_basic code_order 0 [20108, 19968, 20057]) =
      prefix_region doc_sample @ [10, 10, 10, 10] @ suffix_region doc_sample @ [10]"
    by blast
  then show ?thesis
    by (simp add: prefix_region_sample suffix_region_sample)
qed

subsection \<open>The limit 0 on the command line\<close>

lemma parseArgs_loop_nonzero:
  "opt_limit opts \<noteq> Num 0 \<Longrightarrow> parseArgs_loop args opts = Some opts' \<Longrightarrow>
     opt_limit opts' \<noteq> Num 0"
proof (induction args opts rule: parseArgs_loop.induct)
  case (1 opts)
  then show ?case by simp
next
  case (2 a opts)
  then show ?case by (auto split: if_splits)
next
  case (3 a b rest opts)
  show ?case
  proof (cases "a = flag_limit")
    case True
    define lim where
      "lim = (case parseInt10 b of None \<Rightarrow> opt_limit opts
              | Some n \<Rightarrow> (if n = Num 0 then opt_limit opts else n))"
    have nz: "opt_limit (opts\<lparr>opt_limit := lim\<rparr>) \<noteq> Num 0"
      using "3.prems"(1) by (simp add: lim_def split: option.splits)
    have run: "parseArgs_loop rest (opts\<lparr>opt_limit := lim\<rparr>) = Some opts'"
      using "3.prems"(2) True by (simp add: lim_def)
    from "3.IH"(1) [OF True] nz run show ?thesis
      by (simp add: lim_def)
  next
    case nl: False
    show ?thesis
    proof (cases "a = flag_out \<or> a = flag_fontDir \<or> a = flag_include")
      case True
      with nl "3.prems" have "parseArgs_loop rest opts = Some opts'"
        by simp
      with "3.IH"(2) [OF nl True] "3.prems"(1) show ?thesis
        by simp
    next
      case np: False
      show ?thesis
      proof (cases "a = flag_preview")
        case True
        with nl np "3.prems"
        have "parseArgs_loop (b # rest) (opts\<lparr>opt_preview := True\<rparr>) = Some opts'"
          by simp
        with "3.IH"(3) [OF nl np True] "3.prems"(1) show ?thesis
          by simp
      next
        case False
        with nl np "3.prems" have "parseArgs_loop (b # rest) opts = Some opts'"
          by simp
        with "3.IH"(4) [OF nl np False] "3.prems"(1) show ?thesis
          by simp
      qed
    qed
  qed
qed

lemma parseArgs_limit_nonzero: "parseArgs_limit args \<noteq> Some (Num 0)"
proof
  assume "parseArgs_limit args = Some (Num 0)"
  then obtain opts' where
    run: "parseArgs_loop args \<lparr>opt_limit = Num 5800, opt_preview = False\<rparr> = Some opts'"
    and z: "opt_limit opts' = Num 0"
    by (auto simp: parseArgs_limit_def parseArgs_def)
  have "opt_limit \<lparr>opt_limit = Num 5800, opt_preview = False\<rparr> \<noteq> Num 0"
    by simp
  from parseArgs_loop_nonzero [OF this run] z show False
    by simp
qed

lemmas args_eval =
  parseArgs_def parseInt10_def digits_value_def flag_limit_def flag_out_def
  flag_preview_def flag_fontDir_def flag_include_def is_digit_def is_space_def Let_def

text \<open>
  Other limits arrive as they are written: \<^verbatim>\<open>--limit -1\<close> gives the limit \<open>-1\<close>, under
  which the truncation picks nothing; \<^verbatim>\<open>--limit abc\<close> and a \<^verbatim>\<open>--limit\<close> without a value
  give the default; \<^verbatim>\<open>--out\<close> without a value makes \<^verbatim>\<open>parseArgs\<close> raise.
\<close>

lemma parseArgs_samples:
  "parseArgs [flag_limit, [45, 49]] = Some \<lparr>opt_limit = Num (- 1), opt_preview = False\<rparr>"
  "parseArgs [flag_limit, [97, 98, 99]] = Some \<lparr>opt_limit = Num 5800, opt_preview = False\<rparr>"
  "parseArgs [flag_limit] = Some \<lparr>opt_limit = Num 5800, opt_preview = False\<rparr>"
  "parseArgs [flag_preview, flag_limit, [32, 43, 49, 50, 120]] =
     Some \<lparr>opt_limit = Num 12, opt_preview = True\<rparr>"
  "parseArgs [flag_limit, [51], flag_out] = None"
  by (simp_all add: args_eval)

text \<open>
  C8 fails on the program: the limit of \<^verbatim>\<open>main\<close> comes from \<^verbatim>\<open>parseArgs\<close> only, and
  \<^verbatim>\<open>parseInt(args[++i], 10) || out.limit\<close> takes the 0 of \<^verbatim>\<open>--limit 0\<close> for a missing
  value, so no command line gives the limit 0. Run with \<^verbatim>\<open>--limit 0\<close> the program has
  the default limit 5800 and writes the document of the run without arguments; a union
  of three classified characters is written in full, in a body of two lines, where the
  truncation itself, given the limit 0, leaves an empty body.
\<close>

theorem C8_limit_zero_is_default:
  "parseArgs_limit args \<noteq> Some (Num 0) \<and>
   parseInt10 [48] = Some (Num 0) \<and>
   parseArgs [flag_limit, [48]] = Some \<lparr>opt_limit = Num 5800, opt_preview = False\<rparr> \<and>
   parseArgs [flag_limit, [49]] = Some \<lparr>opt_limit = Num 1, opt_preview = False\<rparr> \<and>
   main_run lib coll [flag_limit, [48]] src = Wrote (main_output lib coll 5800 src) \<and>
   main_run lib coll [flag_limit, [48]] src = main_run lib coll [] src \<and>
   select lib_basic code_order 5800 [20108, 19968, 20057] =
     [(2, [20108]), (1, [19968, 20057])] \<and>
   render_body code_order (select lib_basic code_order 5800 [20108, 19968, 20057]) =
     [49, 30011, 9, 19968, 32, 20057, 10, 50, 30011, 9, 20108, 10] \<and>
   render_body code_order (select lib_basic code_order 0 [20108, 19968, 20057]) = []"
proof -
  have p0: "parseInt10 [48] = Some (Num 0)"
    by (simp add: args_eval)
  have l0: "parseArgs [flag_limit, [48]] = Some \<lparr>opt_limit = Num 5800, opt_preview = False\<rparr>"
    by (simp add: args_eval)
  have l1: "parseArgs [flag_limit, [49]] = Some \<lparr>opt_limit = Num 1, opt_preview = False\<rparr>"
    by (simp add: args_eval)
  have le: "parseArgs [] = Some \<lparr>opt_limit = Num 5800, opt_preview = False\<rparr>"
    by (simp add: parseArgs_def)
  have r0: "main_run lib coll [flag_limit, [48]] src = Wrote (main_output lib coll 5800 src)"
    unfolding main_run_def l0 by (simp add: select_lim_def main_output_def)
  have re: "main_run lib coll [] src = Wrote (main_output lib coll 5800 src)"
    unfolding main_run_def le by (simp add: select_lim_def main_output_def)
  have s0: "select lib_basic code_order 5800 [20108, 19968, 20057] =
      [(2, [20108]), (1, [19968, 20057])]"
    by (simp add: eval_defs lib_basic_def)
  have b0: "render_body code_order [(2, [20108]), (1, [19968, 20057])] =
      [49, 30011, 9, 19968, 32, 20057, 10, 50, 30011, 9, 20108, 10]"
    by (simp add: render_body_def body_line_def sorted_keys_def bucket_def code_order_def
        num_toString_def nat_toString_def shortest_def Let_def digits_of.simps hua_def)
  have bz: "render_body code_order (select lib_basic code_order 0 [20108, 19968, 20057]) = []"
    by (simp add: select_zero render_body_Nil)
  show ?thesis
    unfolding s0 b0 r0 re using parseArgs_limit_nonzero [of args] p0 l0 l1 bz by simp
qed

section \<open>Formatter: the anchors\<close>

lemma sublist_trans: "sublist a b \<Longrightarrow> sublist b c \<Longrightarrow> sublist a c"
  by (rule sublist_order.order.trans)

lemma digits_of_digit: "c \<in> set (digits_of n) \<Longrightarrow> is_digit c"
proof (induction n arbitrary: c rule: digits_of.induct)
  case (1 n)
  show ?case
  proof (cases "n < 10")
    case True
    with "1.prems" show ?thesis
      by (simp add: digits_of.simps [of n] is_digit_def)
  next
    case False
    have "n mod 10 < 10" by simp
    then have "is_digit (48 + n mod 10)"
      by (simp add: is_digit_def)
    with False "1.prems" "1.IH" show ?thesis
      by (auto simp: digits_of.simps [of n])
  qed
qed

lemma digits_of_nonempty: "digits_of n \<noteq> []"
  by (simp add: digits_of.simps [of n])

subsection \<open>Printing a number\<close>

lemma shortest_small: "v < 9007199254740992 \<Longrightarrow> shortest v = v"
  by (simp add: shortest_def)

lemma bit_len_num:
  "bit_len 0 = 0" "bit_len (Suc 0) = Suc 0" "bit_len 1 = 1"
  "bit_len (numeral k) = Suc (bit_len (numeral k div 2))"
  by (simp_all add: bit_len.simps [of 0] bit_len.simps [of "Suc 0"] bit_len.simps [of 1]
      bit_len.simps [of "numeral k"])

lemma shortest_from_numeral:
  "shortest_from v (numeral k) =
     (case candidate v (10 ^ numeral k) of Some w \<Rightarrow> w
      | None \<Rightarrow> shortest_from v (pred_numeral k))"
  by (simp add: numeral_eq_Suc)

lemma to_double_sextillion: "to_double 1000000000000000000000 = 1000000000000000000000"
  by (simp add: to_double_def bit_len_num Let_def)

lemma candidate_Some:
  assumes "candidate v p = Some w"
  shows "to_double w = v" and "w = v div p * p \<or> w = v div p * p + p"
  using assms by (auto simp: candidate_def Let_def split: if_splits)

lemma shortest_from_cases:
  "shortest_from v j = v \<or> (\<exists>i \<le> j. candidate v (10 ^ i) = Some (shortest_from v j))"
proof (induction j)
  case 0
  show ?case by (cases "candidate v 1") simp_all
next
  case (Suc j)
  show ?case
  proof (cases "candidate v (10 ^ Suc j)")
    case None
    with Suc show ?thesis by (auto intro: le_SucI)
  next
    case (Some w)
    then have "candidate v (10 ^ Suc j) = Some (shortest_from v (Suc j))"
      by simp
    then show ?thesis by blast
  qed
qed

lemma length_digits_of: "v < 10 ^ Suc k \<Longrightarrow> length (digits_of v) \<le> Suc k"
proof (induction k arbitrary: v)
  case 0
  then show ?case by (simp add: digits_of.simps [of v])
next
  case (Suc k)
  show ?case
  proof (cases "v < 10")
    case True
    then show ?thesis by (simp add: digits_of.simps [of v])
  next
    case False
    from Suc.prems have "v div 10 < 10 ^ Suc k"
      by (simp add: less_mult_imp_div_less mult.commute)
    from Suc.IH [OF this] False show ?thesis
      by (simp add: digits_of.simps [of v])
  qed
qed

lemma candidate_bound:
  assumes v: "v < 1000000000000000000000" and i: "i \<le> 20"
    and c: "candidate v (10 ^ i) = Some w"
  shows "w < 1000000000000000000000"
proof -
  define p :: nat where "p = 10 ^ i"
  define a :: nat where "a = 10 ^ (21 - i)"
  have ap: "a * p = 1000000000000000000000"
  proof -
    have "a * p = 10 ^ (21 - i + i)"
      unfolding a_def p_def by (simp only: power_add)
    also have "21 - i + i = 21" using i by simp
    finally show ?thesis by simp
  qed
  have pp: "0 < p" by (simp add: p_def)
  have "v < a * p" using v ap by simp
  then have d: "v div p < a"
    by (simp add: less_mult_imp_div_less)
  have lo: "v div p * p \<le> v"
    by simp
  from d have "Suc (v div p) \<le> a" by simp
  then have "Suc (v div p) * p \<le> a * p"
    by (rule mult_le_mono1)
  then have hi: "v div p * p + p \<le> 1000000000000000000000"
    using ap by simp
  from candidate_Some [OF c [folded p_def]]
  have ok: "to_double w = v" and w: "w = v div p * p \<or> w = v div p * p + p"
    by (simp_all add: p_def)
  from w show ?thesis
  proof
    assume "w = v div p * p"
    with lo have "w \<le> v" by (simp only:)
    from this v show ?thesis by (rule le_less_trans)
  next
    assume e: "w = v div p * p + p"
    show ?thesis
    proof (rule ccontr)
      assume "\<not> w < 1000000000000000000000"
      with hi e have "w = 1000000000000000000000" by simp
      with ok v show False by (simp add: to_double_sextillion)
    qed
  qed
qed

lemma shortest_bound:
  assumes "v < 1000000000000000000000"
  shows "shortest v < 1000000000000000000000"
proof (cases "v < 9007199254740992")
  case True
  with assms show ?thesis by (simp add: shortest_def)
next
  case False
  define j where "j = length (digits_of v) - 1"
  have "v < 10 ^ Suc 20" using assms by simp
  then have "length (digits_of v) \<le> Suc 20" by (rule length_digits_of)
  then have j: "j \<le> 20" by (simp add: j_def)
  have s: "shortest v = shortest_from v j"
    using False by (simp add: shortest_def j_def)
  from shortest_from_cases [of v j] show ?thesis
  proof
    assume "shortest_from v j = v"
    with s assms show ?thesis by simp
  next
    assume "\<exists>i \<le> j. candidate v (10 ^ i) = Some (shortest_from v j)"
    then obtain i where "i \<le> j" and c: "candidate v (10 ^ i) = Some (shortest_from v j)"
      by blast
    with j have "i \<le> 20" by simp
    from candidate_bound [OF assms this c] s show ?thesis by simp
  qed
qed

lemma nat_toString_plain: "v < 1000000000000000000000 \<Longrightarrow> nat_toString v = digits_of (shortest v)"
  by (simp add: nat_toString_def Let_def shortest_bound)

lemmas print_eval =
  num_toString_def nat_toString_def shortest_def shortest_from_numeral candidate_def
  to_double_def bit_len_num exp_form_def strip_zeros_def digits_of.simps Let_def

text \<open>
  Samples of \<^verbatim>\<open>${n}\<close>: \<^verbatim>\<open>5800\<close>, \<^verbatim>\<open>1152921504606847000\<close> for \<open>2\<^sup>6\<^sup>0\<close>, \<^verbatim>\<open>1e+21\<close>,
  \<^verbatim>\<open>-1.5e+21\<close> and \<^verbatim>\<open>1.1805916207174113e+21\<close> for \<open>2\<^sup>7\<^sup>0\<close>.
\<close>

lemma num_toString_samples:
  "num_toString 5800 = [53, 56, 48, 48]"
  "num_toString 1152921504606846976 =
     [49, 49, 53, 50, 57, 50, 49, 53, 48, 52, 54, 48, 54, 56, 52, 55, 48, 48, 48]"
  "num_toString 1000000000000000000000 = [49, 101, 43, 50, 49]"
  "num_toString (- 1500000000000000000000) = [45, 49, 46, 53, 101, 43, 50, 49]"
  "num_toString 1180591620717411303424 =
     [49, 46, 49, 56, 48, 53, 57, 49, 54, 50, 48, 55, 49, 55, 52, 49, 49, 51, 101, 43, 50, 49]"
  by (simp_all add: print_eval)

subsection \<open>The code units of a printed number\<close>

lemma set_strip_zeros: "set (strip_zeros ds) \<subseteq> set ds"
  by (auto simp: strip_zeros_def dest: set_dropWhileD)

lemma exp_form_units:
  assumes "c \<in> set (exp_form n)"
  shows "is_digit c \<or> c = 46 \<or> c = 101 \<or> c = 43"
proof -
  define s where "s = strip_zeros (digits_of n)"
  have s: "\<And>x. x \<in> set s \<Longrightarrow> is_digit x"
    using set_strip_zeros [of "digits_of n"] by (auto simp: s_def dest: digits_of_digit)
  have "set (case s of [] \<Rightarrow> [] | [d] \<Rightarrow> [d] | d # rest \<Rightarrow> d # 46 # rest) \<subseteq> insert 46 (set s)"
  proof (cases s)
    case Nil
    then show ?thesis by simp
  next
    case (Cons d rest)
    then show ?thesis by (cases rest) auto
  qed
  with assms have "c \<in> insert 46 (set s) \<or> c = 101 \<or> c = 43 \<or>
      c \<in> set (digits_of (length (digits_of n) - 1))"
    by (auto simp: exp_form_def Let_def s_def)
  then show ?thesis
    using s by (auto dest: digits_of_digit)
qed

lemma nat_toString_units:
  "c \<in> set (nat_toString n) \<Longrightarrow> is_digit c \<or> c = 46 \<or> c = 101 \<or> c = 43"
  by (auto simp: nat_toString_def Let_def dest: digits_of_digit exp_form_units split: if_splits)

lemma num_toString_units:
  "c \<in> set (num_toString n) \<Longrightarrow> is_digit c \<or> c = 45 \<or> c = 46 \<or> c = 101 \<or> c = 43"
  by (auto simp: num_toString_def dest: nat_toString_units split: if_splits)

lemma nat_toString_nonempty: "nat_toString n \<noteq> []"
  by (simp add: nat_toString_def exp_form_def Let_def digits_of_nonempty)

lemma num_toString_nonempty: "num_toString n \<noteq> []"
  by (simp add: num_toString_def nat_toString_nonempty)

lemma no_pair_join: "\<not> sublist [20010, 27425] (join_chars cs)"
proof (induction cs rule: join_chars.induct)
  case 1
  then show ?case by simp
next
  case (2 c)
  then show ?case by (auto dest: sublist_length_le)
next
  case (3 c d cs)
  show ?case
  proof
    assume "sublist [20010, 27425] (join_chars (c # d # cs))"
    then have "sublist [20010, 27425] ([c] @ 32 # join_chars (d # cs))"
      by simp
    then have "sublist [20010, 27425] [c] \<or> sublist [20010, 27425] (join_chars (d # cs))"
      by (rule sublist_split [rotated]) simp
    with 3 show False by (auto dest: sublist_length_le)
  qed
qed

lemma no_pair_num: "\<not> sublist [20010, 27425] (num_toString n)"
proof
  assume "sublist [20010, 27425] (num_toString n)"
  then have "set [20010, 27425] \<subseteq> set (num_toString n)"
    by (rule set_mono_sublist)
  then have "20010 \<in> set (num_toString n)" by simp
  then show False
    by (auto dest!: num_toString_units simp: is_digit_def)
qed

lemma no_pair_line:
  "\<not> sublist [20010, 27425] (num_toString n @ [hua, 9] @ join_chars cs)"
proof
  assume "sublist [20010, 27425] (num_toString n @ [hua, 9] @ join_chars cs)"
  then have "sublist [20010, 27425] (num_toString n @ hua # ([] @ 9 # join_chars cs))"
    by simp
  then have "sublist [20010, 27425] (num_toString n) \<or>
      sublist [20010, 27425] ([] @ 9 # join_chars cs)"
    by (rule sublist_split [rotated]) (simp add: hua_def)
  then have "sublist [20010, 27425] ([] @ 9 # join_chars cs)"
    by (simp add: no_pair_num)
  then have "sublist [20010, 27425] ([] :: nat list) \<or> sublist [20010, 27425] (join_chars cs)"
    by (rule sublist_split [rotated]) simp
  then show False by (simp add: no_pair_join)
qed

lemma no_pair_body: "\<not> sublist [20010, 27425] (render_body coll m)"
proof -
  have "\<not> sublist [20010, 27425] (concat (map (body_line coll m) ks))" for ks
  proof (induction ks)
    case Nil
    then show ?case by simp
  next
    case (Cons k ks)
    show ?case
    proof
      assume "sublist [20010, 27425] (concat (map (body_line coll m) (k # ks)))"
      then have "sublist [20010, 27425]
          ((num_toString k @ [hua, 9] @ join_chars (sort_key coll (bucket m k)))
            @ 10 # concat (map (body_line coll m) ks))"
        by (simp add: body_line_def)
      then have "sublist [20010, 27425]
            (num_toString k @ [hua, 9] @ join_chars (sort_key coll (bucket m k))) \<or>
          sublist [20010, 27425] (concat (map (body_line coll m) ks))"
        by (rule sublist_split [rotated]) simp
      with Cons no_pair_line show False by blast
    qed
  qed
  then show ?thesis by (simp add: render_body_def)
qed

lemma pair_in_anchor: "sublist [20010, 27425] prefix_anchor"
proof -
  have "sublist [20010, 27425 :: nat]
      ([49, 48, 48, 48, 32] @ [20010, 27425] @ [24120, 29992, 23383, 22823, 20840])"
    by (rule sublist_appendI)
  then show ?thesis
    by (simp add: prefix_anchor_def)
qed

lemma no_anchor_body: "\<not> sublist prefix_anchor (render_body coll m)"
  using no_pair_body [of coll m] pair_in_anchor
  by (blast intro: sublist_trans)

lemma no_anchor_prefix_region: "\<not> sublist prefix_anchor (prefix_region raw)"
proof (cases "indexOf prefix_anchor raw")
  case None
  then show ?thesis by (simp add: prefix_region_def prefix_anchor_def)
next
  case (Some i)
  have "\<not> sublist prefix_anchor (take i raw)"
    using Some by (rule indexOf_before) (simp add: prefix_anchor_def)
  moreover have "sublist (trim (take i raw)) (take i raw)"
    by (rule sublist_trim)
  ultimately have "\<not> sublist prefix_anchor (trim (take i raw))"
    by (blast intro: sublist_trans)
  with Some show ?thesis by (simp add: prefix_region_def)
qed

lemma anchor_in_suffix_region:
  "sublist prefix_anchor (suffix_region raw) \<Longrightarrow>
   \<exists>j. indexOf suffix_anchor raw = Some j \<and> sublist prefix_anchor (drop j raw)"
proof (cases "indexOf suffix_anchor raw")
  case None
  assume "sublist prefix_anchor (suffix_region raw)"
  with None show ?thesis by (simp add: suffix_region_def prefix_anchor_def)
next
  case (Some j)
  assume "sublist prefix_anchor (suffix_region raw)"
  with Some have "sublist prefix_anchor (trim (drop j raw))"
    by (simp add: suffix_region_def)
  then have "sublist prefix_anchor (drop j raw)"
    using sublist_trim [of "drop j raw"] by (blast intro: sublist_trans)
  with Some show ?thesis by simp
qed

lemma anchor_in_output:
  assumes "sublist prefix_anchor (formatOutput coll raw m)"
  shows "sublist prefix_anchor (suffix_region raw)"
proof -
  let ?X = "prefix_region raw @ [10, 10] @ render_body coll m @ [10, 10] @ suffix_region raw"
  have nl: "10 \<notin> set prefix_anchor" and ne: "\<not> sublist prefix_anchor []"
    by (simp_all add: prefix_anchor_def)
  from assms have "sublist prefix_anchor (trim ?X @ 10 # [])"
    by (simp add: formatOutput_def)
  with nl have "sublist prefix_anchor (trim ?X) \<or> sublist prefix_anchor []"
    by (rule sublist_split)
  with ne have "sublist prefix_anchor (trim ?X)" by simp
  then have "sublist prefix_anchor ?X"
    using sublist_trim [of ?X] by (blast intro: sublist_trans)
  then have "sublist prefix_anchor
      (prefix_region raw @ 10 # ([] @ 10 # (render_body coll m @ 10 # ([] @ 10 # suffix_region raw))))"
    by simp
  with nl have "sublist prefix_anchor (prefix_region raw) \<or>
      sublist prefix_anchor ([] @ 10 # (render_body coll m @ 10 # ([] @ 10 # suffix_region raw)))"
    by (rule sublist_split)
  with no_anchor_prefix_region
  have "sublist prefix_anchor ([] @ 10 # (render_body coll m @ 10 # ([] @ 10 # suffix_region raw)))"
    by blast
  with nl have "sublist prefix_anchor [] \<or>
      sublist prefix_anchor (render_body coll m @ 10 # ([] @ 10 # suffix_region raw))"
    by (rule sublist_split)
  with ne have "sublist prefix_anchor (render_body coll m @ 10 # ([] @ 10 # suffix_region raw))"
    by simp
  with nl have "sublist prefix_anchor (render_body coll m) \<or>
      sublist prefix_anchor ([] @ 10 # suffix_region raw)"
    by (rule sublist_split)
  with no_anchor_body have "sublist prefix_anchor ([] @ 10 # suffix_region raw)"
    by blast
  with nl have "sublist prefix_anchor [] \<or> sublist prefix_anchor (suffix_region raw)"
    by (rule sublist_split)
  with ne show ?thesis by simp
qed

text \<open>
  C10: when the baseline document contains the prefix anchor, the prefix region of the
  formatter is the trimmed text before the first occurrence of the anchor. The anchor
  is not in that region, and it is in the formatted output only if it occurs in the
  document at or after the suffix anchor. A region is not the raw slice of the document
  when that slice begins or ends with white space (the suffix slice begins with the
  digit 1, so for it only the end matters).
\<close>

theorem C10_prefix_region:
  "sublist prefix_anchor raw \<Longrightarrow>
   \<exists>i. indexOf prefix_anchor raw = Some i \<and>
     prefix prefix_anchor (drop i raw) \<and> (\<forall>j < i. \<not> prefix prefix_anchor (drop j raw)) \<and>
     prefix_region raw = trim (take i raw) \<and>
     \<not> sublist prefix_anchor (prefix_region raw) \<and>
     (sublist prefix_anchor (formatOutput coll raw m) \<longrightarrow>
        (\<exists>j. indexOf suffix_anchor raw = Some j \<and> sublist prefix_anchor (drop j raw))) \<and>
     (take i raw \<noteq> [] \<and> (is_space (hd (take i raw)) \<or> is_space (last (take i raw))) \<longrightarrow>
        prefix_region raw \<noteq> take i raw) \<and>
     (\<forall>j. indexOf suffix_anchor raw = Some j \<and> is_space (last (drop j raw)) \<longrightarrow>
        suffix_region raw \<noteq> drop j raw)"
proof -
  assume "sublist prefix_anchor raw"
  then obtain i where i: "indexOf prefix_anchor raw = Some i"
    using indexOf_None [of prefix_anchor raw] by (cases "indexOf prefix_anchor raw") auto
  have first: "prefix prefix_anchor (drop i raw) \<and> (\<forall>j < i. \<not> prefix prefix_anchor (drop j raw))"
    using indexOf_first [OF i] by blast
  have region: "prefix_region raw = trim (take i raw)"
    using i by (simp add: prefix_region_def)
  have out: "sublist prefix_anchor (formatOutput coll raw m) \<longrightarrow>
        (\<exists>j. indexOf suffix_anchor raw = Some j \<and> sublist prefix_anchor (drop j raw))"
    by (blast dest: anchor_in_output anchor_in_suffix_region)
  have pre: "take i raw \<noteq> [] \<and> (is_space (hd (take i raw)) \<or> is_space (last (take i raw))) \<longrightarrow>
        prefix_region raw \<noteq> take i raw"
    unfolding region by (auto simp: trim_eq_self_iff)
  have suf: "\<forall>j. indexOf suffix_anchor raw = Some j \<and> is_space (last (drop j raw)) \<longrightarrow>
        suffix_region raw \<noteq> drop j raw"
  proof (intro allI impI)
    fix j
    assume j: "indexOf suffix_anchor raw = Some j \<and> is_space (last (drop j raw))"
    then have "prefix suffix_anchor (drop j raw)"
      using indexOf_first [of suffix_anchor raw j] by blast
    then have "drop j raw \<noteq> []"
      by (auto simp: suffix_anchor_def)
    with j show "suffix_region raw \<noteq> drop j raw"
      by (auto simp: suffix_region_def trim_eq_self_iff)
  qed
  from i first region no_anchor_prefix_region [of raw] out pre suf show ?thesis
    by blast
qed

lemma indexOf_prefix_sample: "indexOf prefix_anchor doc_sample = Some 2"
  by (simp add: doc_sample_def prefix_anchor_def)

lemma indexOf_suffix_sample: "indexOf suffix_anchor doc_sample = Some 20"
  by (simp add: doc_sample_def prefix_anchor_def suffix_anchor_def)

lemma no_anchor_after_suffix_sample: "\<not> sublist prefix_anchor (drop 20 doc_sample)"
  by (simp add: doc_sample_def prefix_anchor_def suffix_anchor_def sublist_Cons_right)

theorem C10_prefix_region_witness:
  "sublist prefix_anchor doc_sample \<and> indexOf prefix_anchor doc_sample = Some 2 \<and>
   take 2 doc_sample = [104, 10] \<and> prefix_region doc_sample = [104] \<and>
   prefix_region doc_sample \<noteq> take 2 doc_sample \<and>
   \<not> sublist prefix_anchor (formatOutput code_order doc_sample (groupByStroke lib_basic [19968]))"
proof -
  have h: "sublist prefix_anchor doc_sample"
    unfolding doc_sample_def by (rule sublist_appendI)
  have t: "take 2 doc_sample = [104, 10]"
    by (simp add: doc_sample_def)
  from C10_prefix_region [OF h, of code_order "groupByStroke lib_basic [19968]"]
  have "sublist prefix_anchor (formatOutput code_order doc_sample (groupByStroke lib_basic [19968]))
      \<longrightarrow> (\<exists>j. indexOf suffix_anchor doc_sample = Some j \<and> sublist prefix_anchor (drop j doc_sample))"
    by blast
  then have "\<not> sublist prefix_anchor
      (formatOutput code_order doc_sample (groupByStroke lib_basic [19968]))"
    using no_anchor_after_suffix_sample by (auto simp: indexOf_suffix_sample)
  with h t show ?thesis
    by (simp add: indexOf_prefix_sample prefix_region_sample)
qed

section \<open>extractCharsFromFonts: one font fails\<close>

lemma stack_glyphs_simps:
  "stack_glyphs f [] = {}"
  "stack_glyphs f ((p, l) # stack) = tree_glyphs f (Directory n l) \<union> stack_glyphs f stack"
  by (cases l; simp add: stack_glyphs_def entry_glyphs_def)+

lemma stack_failed_simps:
  "stack_failed f [] = {}"
  "stack_failed f ((d @ [n], l) # stack) = tree_failed f d (Directory n l) \<union> stack_failed f stack"
  by (cases l; simp add: stack_failed_def entry_failed_def)+

lemma entry_readable_simps:
  "entry_readable (p, l) = tree_readable (Directory n l)"
  by (cases l) (simp_all add: entry_readable_def)

lemma entry_readable_Some: "entry_readable (p, Some items) = list_all tree_readable items"
  by (simp add: entry_readable_def)

lemma entry_readable_None: "\<not> entry_readable (p, None)"
  by (simp add: entry_readable_def)

lemma set_fold_add_glyph: "set (fold add_glyph glyphs chars) = set chars \<union> {c \<in> set glyphs. isCJK c}"
  by (induction glyphs arbitrary: chars) (auto simp: add_glyph_def set_set_add isCJK_def)

lemma scan_item_spec:
  assumes "tree_readable it" and "scan_item f d it (stack, chars, log) = (stack', chars', log')"
    and "list_all entry_readable stack"
  shows "list_all entry_readable stack' \<and>
   set chars' \<union> stack_glyphs f stack' = set chars \<union> stack_glyphs f stack \<union> tree_glyphs f it \<and>
   set log' \<union> stack_failed f stack' = set log \<union> stack_failed f stack \<union> tree_failed f d it"
proof (cases it)
  case (Directory n l)
  with assms(2) have eq: "stack' = (d @ [n], l) # stack" "chars' = chars" "log' = log"
    by (simp_all add: scan_item_def)
  have "entry_readable (d @ [n], l)"
    using assms(1) Directory by (simp add: entry_readable_simps [of _ _ n])
  with assms(3) have "list_all entry_readable stack'"
    by (simp add: eq)
  moreover have "stack_glyphs f stack' = tree_glyphs f it \<union> stack_glyphs f stack"
    unfolding eq Directory by (rule stack_glyphs_simps)
  moreover have "stack_failed f stack' = tree_failed f d it \<union> stack_failed f stack"
    unfolding eq Directory by (rule stack_failed_simps)
  ultimately show ?thesis
    unfolding eq by (simp add: Un_ac)
next
  case (File n r)
  show ?thesis
  proof (cases r)
    case FontFails
    with File assms(2) have eq: "stack' = stack" "chars' = chars"
      "log' = (if f n then log @ [d @ [n]] else log)"
      by (simp_all add: scan_item_def split: if_splits)
    show ?thesis
      using assms(3) unfolding eq File FontFails by (simp add: Un_ac)
  next
    case (CharacterSet glyphs)
    with File assms(2) have eq: "stack' = stack" "log' = log"
      "chars' = (if f n then fold add_glyph glyphs chars else chars)"
      by (simp_all add: scan_item_def split: if_splits)
    show ?thesis
      using assms(3) unfolding eq File CharacterSet
      by (simp add: set_fold_add_glyph Un_ac)
  qed
next
  case (Other n)
  with assms(2) have eq: "stack' = stack" "chars' = chars" "log' = log"
    by (simp_all add: scan_item_def)
  show ?thesis
    using assms(3) unfolding eq Other by simp
qed


lemma fold_scan_spec:
  "list_all tree_readable items \<Longrightarrow>
   fold (scan_item f d) items (stack, chars, log) = (stack', chars', log') \<Longrightarrow>
   list_all entry_readable stack \<Longrightarrow>
   list_all entry_readable stack' \<and>
   set chars' \<union> stack_glyphs f stack' =
     set chars \<union> stack_glyphs f stack \<union> (\<Union>it \<in> set items. tree_glyphs f it) \<and>
   set log' \<union> stack_failed f stack' =
     set log \<union> stack_failed f stack \<union> (\<Union>it \<in> set items. tree_failed f d it)"
proof (induction items arbitrary: stack chars log)
  case Nil
  then show ?case by simp
next
  case (Cons it items)
  obtain s1 c1 l1 where st: "scan_item f d it (stack, chars, log) = (s1, c1, l1)"
    by (cases "scan_item f d it (stack, chars, log)") auto
  from Cons.prems(1) have r: "tree_readable it" "list_all tree_readable items"
    by simp_all
  from scan_item_spec [OF r(1) st Cons.prems(3)]
  have one: "list_all entry_readable s1"
    "set c1 \<union> stack_glyphs f s1 = set chars \<union> stack_glyphs f stack \<union> tree_glyphs f it"
    "set l1 \<union> stack_failed f s1 = set log \<union> stack_failed f stack \<union> tree_failed f d it"
    by blast+
  from Cons.prems(2) st have "fold (scan_item f d) items (s1, c1, l1) = (stack', chars', log')"
    by simp
  from Cons.IH [OF r(2) this one(1)]
  have rest: "list_all entry_readable stack'"
    "set chars' \<union> stack_glyphs f stack' =
      set c1 \<union> stack_glyphs f s1 \<union> (\<Union>it \<in> set items. tree_glyphs f it)"
    "set log' \<union> stack_failed f stack' =
      set l1 \<union> stack_failed f s1 \<union> (\<Union>it \<in> set items. tree_failed f d it)"
    by blast+
  show ?case
    unfolding rest(2,3) one(2,3) using rest(1) by (simp add: Un_ac)
qed

lemma walk_spec:
  "list_all entry_readable stack \<Longrightarrow>
   \<exists>chars' log'. walk f stack chars log = Some (chars', log') \<and>
     set chars' = set chars \<union> stack_glyphs f stack \<and>
     set log' = set log \<union> stack_failed f stack"
proof (induction f stack chars log rule: walk.induct)
  case (1 f chars log)
  then show ?case by (simp add: stack_glyphs_def stack_failed_def)
next
  case (2 f d stack chars log)
  then show ?case by (simp add: entry_readable_None)
next
  case (3 f d items stack chars log)
  obtain s1 c1 l1 where st: "fold (scan_item f d) items (stack, chars, log) = (s1, c1, l1)"
    by (cases "fold (scan_item f d) items (stack, chars, log)") auto
  from "3.prems" have r: "list_all tree_readable items" "list_all entry_readable stack"
    by (simp_all add: entry_readable_Some)
  from fold_scan_spec [OF r(1) st r(2)]
  have sc: "list_all entry_readable s1"
    "set c1 \<union> stack_glyphs f s1 =
      set chars \<union> stack_glyphs f stack \<union> (\<Union>it \<in> set items. tree_glyphs f it)"
    "set l1 \<union> stack_failed f s1 =
      set log \<union> stack_failed f stack \<union> (\<Union>it \<in> set items. tree_failed f d it)"
    by blast+
  from "3.IH" [OF st [symmetric] refl sc(1)]
  obtain chars' log' where w: "walk f s1 c1 l1 = Some (chars', log')"
    "set chars' = set c1 \<union> stack_glyphs f s1"
    "set log' = set l1 \<union> stack_failed f s1"
    by blast
  have "walk f ((d, Some items) # stack) chars log = Some (chars', log')"
    using st w(1) by simp
  moreover have "set chars' = set chars \<union> stack_glyphs f ((d, Some items) # stack)"
    unfolding w(2) sc(2) by (auto simp: stack_glyphs_def entry_glyphs_def)
  moreover have "set log' = set log \<union> stack_failed f ((d, Some items) # stack)"
    unfolding w(3) sc(3) by (auto simp: stack_failed_def entry_failed_def)
  ultimately show ?case by blast
qed

text \<open>
  C9: when every directory of the font tree can be listed, the scan returns, whatever
  fonts fail to open or to give their character set. Its characters are exactly the
  code points of the basic block covered by the fonts that open, anywhere in the tree;
  the fonts that fail are exactly the paths it logs; and \<^verbatim>\<open>main\<close> adds the characters
  to the union.
\<close>

theorem C9_font_failure_skipped:
  "list_all tree_readable items \<Longrightarrow>
   \<exists>chars log. extractCharsFromFonts f d (Some items) = Some (chars, log) \<and>
     set chars = (\<Union>it \<in> set items. tree_glyphs f it) \<and>
     set log = (\<Union>it \<in> set items. tree_failed f d it) \<and>
     (is_font src = f \<and> fontDir src = d \<and> fontListing src = Some items \<longrightarrow>
        set (main_union src) = set (union_before_fonts src) \<union> set chars)"
proof -
  assume r: "list_all tree_readable items"
  then have "list_all entry_readable [(d, Some items)]"
    by (simp add: entry_readable_Some)
  from walk_spec [OF this, of f "[]" "[]"]
  obtain chars log where w: "walk f [(d, Some items)] [] [] = Some (chars, log)"
    "set chars = stack_glyphs f [(d, Some items)]"
    "set log = stack_failed f [(d, Some items)]"
    by auto
  have "extractCharsFromFonts f d (Some items) = Some (chars, log)"
    using w(1) by (simp add: extractCharsFromFonts_def)
  moreover have "set chars = (\<Union>it \<in> set items. tree_glyphs f it)"
    using w(2) by (simp add: stack_glyphs_def entry_glyphs_def)
  moreover have "set log = (\<Union>it \<in> set items. tree_failed f d it)"
    using w(3) by (simp add: stack_failed_def entry_failed_def)
  moreover have "is_font src = f \<and> fontDir src = d \<and> fontListing src = Some items \<longrightarrow>
        set (main_union src) = set (union_before_fonts src) \<union> set chars"
    using w(1) by (auto simp: main_union_def set_add_fonts extractCharsFromFonts_def)
  ultimately show ?thesis by blast
qed

theorem C9_font_failure_skipped_witness:
  "list_all tree_readable font_tree \<and>
   extractCharsFromFonts font_name [] (Some font_tree) =
     Some ([19968, 40959, 20108], [[[100], [103]]]) \<and>
   (\<Union>it \<in> set font_tree. tree_glyphs font_name it) = set [19968, 40959, 20108] \<and>
   (\<Union>it \<in> set font_tree. tree_failed font_name [] it) = set [[[100], [103]]]"
proof -
  have h: "list_all tree_readable font_tree"
    by (simp add: font_tree_def)
  have e: "extractCharsFromFonts font_name [] (Some font_tree) =
      Some ([19968, 40959, 20108], [[[100], [103]]])"
    by (simp add: extractCharsFromFonts_def font_tree_def font_name_def scan_item_def
        add_glyph_def set_add_def)
  from C9_font_failure_skipped [OF h, of font_name "[]"] e
  have "set [19968, 40959, 20108] = (\<Union>it \<in> set font_tree. tree_glyphs font_name it)"
    and "set [[[100], [103]]] = (\<Union>it \<in> set font_tree. tree_failed font_name [] it)"
    by auto
  with h e show ?thesis by simp
qed

section \<open>Round trip: the formatted document through the loader\<close>

lemma split_lines_after_lf:
  "\<exists>l ls. split_lines (xs @ 10 # ys) = (l # ls) @ split_lines ys"
proof (induction xs rule: split_lines.induct)
  case 1
  show ?case by (cases ys) auto
next
  case (2 c)
  obtain l ls where e: "split_lines (10 # ys) = l # ls" "l # ls = [] # split_lines ys"
    by (cases ys) auto
  show ?case
  proof (cases "c = 10 \<or> c = 13")
    case True
    then show ?thesis using e by auto
  next
    case False
    then have "split_lines ([c] @ 10 # ys) = ([c] # []) @ split_lines ys"
      using e by auto
    then show ?thesis by blast
  qed
next
  case (3 c d cs)
  show ?case
  proof (cases "c = 10")
    case True
    with 3(1) obtain l ls where "split_lines ((d # cs) @ 10 # ys) = (l # ls) @ split_lines ys"
      by blast
    with True have "split_lines ((c # d # cs) @ 10 # ys) = ([] # l # ls) @ split_lines ys"
      by simp
    then show ?thesis by blast
  next
    case c: False
    show ?thesis
    proof (cases "c = 13 \<and> d = 10")
      case True
      with c 3(2) obtain l ls where "split_lines (cs @ 10 # ys) = (l # ls) @ split_lines ys"
        by blast
      with True c have "split_lines ((c # d # cs) @ 10 # ys) = ([] # l # ls) @ split_lines ys"
        by simp
      then show ?thesis by blast
    next
      case False
      with c 3(3) obtain l ls where "split_lines ((d # cs) @ 10 # ys) = (l # ls) @ split_lines ys"
        by blast
      with False c have "split_lines ((c # d # cs) @ 10 # ys) = ((c # l) # ls) @ split_lines ys"
        by auto
      then show ?thesis by blast
    qed
  qed
qed

lemma split_lines_plain_line:
  "10 \<notin> set l \<Longrightarrow> 13 \<notin> set l \<Longrightarrow> split_lines (l @ 10 # ys) = l # split_lines ys"
proof (induction l)
  case Nil
  show ?case by (cases ys) auto
next
  case (Cons c l)
  then have ih: "split_lines (l @ 10 # ys) = l # split_lines ys"
    by simp
  obtain d cs where dc: "l @ 10 # ys = d # cs"
    by (cases "l @ 10 # ys") auto
  from Cons.prems have "c \<noteq> 10" "c \<noteq> 13" by auto
  then have "split_lines (c # d # cs) =
      (case split_lines (d # cs) of [] \<Rightarrow> [[c]] | l # ls \<Rightarrow> (c # l) # ls)"
    by simp
  then show ?case
    using ih by (simp add: dc [symmetric])
qed

lemma line_in_split_lines:
  assumes "pre = [] \<or> last pre = 10" and "10 \<notin> set l" and "13 \<notin> set l"
  shows "l \<in> set (split_lines (pre @ l @ 10 # post))"
proof (cases "pre = []")
  case True
  then show ?thesis
    using assms(2,3) by (simp add: split_lines_plain_line)
next
  case False
  with assms(1) obtain xs where pre: "pre = xs @ [10]"
    by (metis append_butlast_last_id)
  obtain l0 ls where "split_lines (xs @ 10 # (l @ 10 # post)) = (l0 # ls) @ split_lines (l @ 10 # post)"
    using split_lines_after_lf by blast
  then show ?thesis
    using assms(2,3) by (simp add: pre split_lines_plain_line)
qed

lemma star_tab_rest_no_tab: "9 \<notin> set J \<Longrightarrow> star_tab_rest J = None"
  by (induction J) auto

lemma star_tab_rest_label:
  "9 \<notin> set J \<Longrightarrow> dot_plus_end J \<Longrightarrow> star_tab_rest (hua # 9 # J) = Some J"
  by (simp add: star_tab_rest_no_tab in_class_def is_space_def)

lemma digits_then_label:
  "\<forall>c \<in> set ds. is_digit c \<Longrightarrow> 9 \<notin> set J \<Longrightarrow> dot_plus_end J \<Longrightarrow>
   digits_then (ds @ hua # 9 # J) = Some J"
proof (induction ds)
  case Nil
  then show ?case
    using star_tab_rest_label [of J] by (simp add: is_digit_def hua_def)
next
  case (Cons d ds)
  then show ?case by simp
qed

lemma match_line_label:
  assumes "ds \<noteq> []" and "\<forall>c \<in> set ds. is_digit c" and "9 \<notin> set J" and "dot_plus_end J"
  shows "match_line (ds @ hua # 9 # J) = Some J"
proof -
  from assms(1) obtain d ds' where ds: "ds = d # ds'" by (cases ds) auto
  with assms(2) have "is_digit d" "\<forall>c \<in> set ds'. is_digit c" by auto
  then show ?thesis
    using assms(3,4) by (simp add: ds match_line_def digits_then_label)
qed

lemma join_chars_nonempty: "cs \<noteq> [] \<Longrightarrow> join_chars cs \<noteq> []"
  by (induction cs rule: join_chars.induct) auto

lemma hd_join_chars: "cs \<noteq> [] \<Longrightarrow> hd (join_chars cs) = hd cs"
  by (induction cs rule: join_chars.induct) auto

lemma last_join_chars: "cs \<noteq> [] \<Longrightarrow> last (join_chars cs) = last cs"
  by (induction cs rule: join_chars.induct) (auto simp: join_chars_nonempty)

lemma set_join_chars: "set (join_chars cs) \<subseteq> insert 32 (set cs)"
  by (induction cs rule: join_chars.induct) auto

lemma collapse_join_chars:
  "\<forall>c \<in> set cs. \<not> is_space c \<Longrightarrow> collapse_ws (join_chars cs) = join_chars cs"
proof (induction cs rule: join_chars.induct)
  case 1
  then show ?case by simp
next
  case (2 c)
  then show ?case by simp
next
  case (3 c d cs)
  then have "\<not> is_space c" "\<not> is_space d" by auto
  moreover have "is_space 32" by (simp add: is_space_def)
  moreover have "join_chars (d # cs) = d # tl (join_chars (d # cs))"
    by (cases cs) auto
  ultimately have "dropWhile is_space (join_chars (d # cs)) = join_chars (d # cs)"
    by (metis dropWhile.simps(2))
  with 3 \<open>\<not> is_space c\<close> \<open>is_space 32\<close> show ?case by simp
qed

lemma trim_join_chars:
  "cs \<noteq> [] \<Longrightarrow> \<forall>c \<in> set cs. \<not> is_space c \<Longrightarrow> trim (join_chars cs) = join_chars cs"
  by (rule trim_self) (simp_all add: join_chars_nonempty hd_join_chars last_join_chars)

lemma split_on_join_chars:
  "cs \<noteq> [] \<Longrightarrow> 32 \<notin> set cs \<Longrightarrow> split_on 32 (join_chars cs) = map (\<lambda>c. [c]) cs"
proof (induction cs rule: join_chars.induct)
  case 1
  then show ?case by simp
next
  case (2 c)
  then show ?case by simp
next
  case (3 c d cs)
  then show ?case by simp
qed

lemma line_tokens_join_chars:
  assumes "cs \<noteq> []" and "\<forall>c \<in> set cs. \<not> is_space c"
  shows "line_tokens (join_chars cs) = map (\<lambda>c. [c]) cs"
proof -
  have "32 \<notin> set cs"
    using assms(2) by (auto simp: is_space_def)
  with assms show ?thesis
    by (simp add: line_tokens_def collapse_join_chars trim_join_chars split_on_join_chars)
qed

lemma token_chars_singletons: "token_chars (map (\<lambda>c. [c]) cs) = set cs"
  by (auto simp: token_chars_def)

lemma set_parse_line_mono: "set s \<subseteq> set (parse_line l s)"
  by (auto simp: parse_line_def set_fold_add_token split: option.splits)

lemma set_fold_parse_line_mono: "set s \<subseteq> set (fold parse_line ls s)"
proof (induction ls arbitrary: s)
  case Nil
  then show ?case by simp
next
  case (Cons l ls)
  have "set s \<subseteq> set (parse_line l s)" by (rule set_parse_line_mono)
  also have "\<dots> \<subseteq> set (fold parse_line ls (parse_line l s))" by (rule Cons.IH)
  finally show ?case by simp
qed

lemma parsed_line_chars:
  "l \<in> set ls \<Longrightarrow> match_line l = Some J \<Longrightarrow>
   token_chars (line_tokens J) \<subseteq> set (fold parse_line ls s)"
proof (induction ls arbitrary: s)
  case Nil
  then show ?case by simp
next
  case (Cons x ls)
  show ?case
  proof (cases "x = l")
    case True
    have "token_chars (line_tokens J) \<subseteq> set (parse_line l s)"
      using Cons.prems(2) by (simp add: parse_line_def set_fold_add_token)
    also have "\<dots> \<subseteq> set (fold parse_line ls (parse_line l s))"
      by (rule set_fold_parse_line_mono)
    finally show ?thesis using True by simp
  next
    case False
    with Cons.prems have "l \<in> set ls" by simp
    from Cons.IH [OF this Cons.prems(2)] show ?thesis by simp
  qed
qed

lemma strokeOf_nonneg: "strokeOf lib c = Some n \<Longrightarrow> 0 \<le> n"
  by (auto simp: strokeOf_def order_first_length_def
      split: direct_reply.splits order_reply.splits list.splits elem.splits if_splits)


lemma body_line_text: "body_line coll m n = line_text coll m n @ [10]"
  by (simp add: body_line_def line_text_def)

lemma digit_not_space: "is_digit c \<Longrightarrow> \<not> is_space c"
  by (auto simp: is_digit_def is_space_def)

lemma line_terminator_space: "is_line_terminator c \<Longrightarrow> is_space c"
  by (auto simp: is_line_terminator_def is_space_def)

lemma num_toString_pos:
  assumes "0 < n" and "n < 1000000000000000000000"
  shows "num_toString n = digits_of (shortest (nat n))"
proof -
  have "nat n < 1000000000000000000000"
    using assms by arith
  with assms(1) show ?thesis
    by (simp add: num_toString_def nat_toString_plain)
qed

lemma num_toString_plain:
  "c \<in> set (num_toString n) \<Longrightarrow> \<not> is_space c \<and> c \<noteq> 10 \<and> c \<noteq> 13 \<and> c \<noteq> 9"
  by (auto dest!: num_toString_units simp: is_digit_def is_space_def)

lemma line_text_props:
  assumes ne: "bucket m k \<noteq> []"
    and ns: "\<forall>c \<in> set (bucket m k). \<not> is_space c"
  shows "line_text coll m k \<noteq> []"
    and "\<not> is_space (hd (line_text coll m k))"
    and "\<not> is_space (last (line_text coll m k))"
    and "10 \<notin> set (line_text coll m k)"
    and "13 \<notin> set (line_text coll m k)"
    and "9 \<notin> set (join_chars (sort_key coll (bucket m k)))"
    and "dot_plus_end (join_chars (sort_key coll (bucket m k)))"
    and "token_chars (line_tokens (join_chars (sort_key coll (bucket m k)))) = set (bucket m k)"
proof -
  define cs where "cs = sort_key coll (bucket m k)"
  define ds where "ds = num_toString k"
  have cs: "cs \<noteq> []" "\<forall>c \<in> set cs. \<not> is_space c" "set cs = set (bucket m k)"
    using ne ns by (auto simp: cs_def dest: arg_cong [where f = length])
  have ds: "ds \<noteq> []" "\<And>c. c \<in> set ds \<Longrightarrow> \<not> is_space c \<and> c \<noteq> 10 \<and> c \<noteq> 13 \<and> c \<noteq> 9"
    by (simp_all add: ds_def num_toString_nonempty num_toString_plain)
  have lt: "line_text coll m k = ds @ hua # 9 # join_chars cs"
    by (simp add: line_text_def cs_def ds_def)
  have J: "join_chars cs \<noteq> []" "set (join_chars cs) \<subseteq> insert 32 (set cs)"
    using cs(1) by (simp_all add: join_chars_nonempty set_join_chars)
  have sp: "is_space 9" "is_space 10" "is_space 13"
    by (simp_all add: is_space_def)
  show "line_text coll m k \<noteq> []"
    by (simp add: lt)
  have "hd (line_text coll m k) = hd ds"
    using ds(1) by (simp add: lt)
  moreover have "hd ds \<in> set ds"
    using ds(1) by simp
  ultimately show "\<not> is_space (hd (line_text coll m k))"
    using ds(2) by simp
  have "last (line_text coll m k) = last cs"
    using J(1) cs(1) by (simp add: lt last_join_chars)
  then show "\<not> is_space (last (line_text coll m k))"
    using cs(1,2) by simp
  have nd: "hua \<noteq> 10" "hua \<noteq> 13"
    by (simp_all add: hua_def)
  have nj: "10 \<notin> set (join_chars cs)" "13 \<notin> set (join_chars cs)" "9 \<notin> set (join_chars cs)"
    using J(2) cs(2) sp by auto
  show "10 \<notin> set (line_text coll m k)" "13 \<notin> set (line_text coll m k)"
    using ds(2) nd nj by (auto simp: lt)
  show "9 \<notin> set (join_chars (sort_key coll (bucket m k)))"
    using nj(3) by (simp add: cs_def)
  have "list_all (\<lambda>c. \<not> is_line_terminator c) (join_chars cs)"
  proof -
    have "\<not> is_line_terminator c" if "c \<in> set (join_chars cs)" for c
    proof -
      from that J(2) have "c = 32 \<or> c \<in> set cs" by auto
      then show ?thesis
      proof
        assume "c = 32"
        then show ?thesis by (simp add: is_line_terminator_def)
      next
        assume "c \<in> set cs"
        with cs(2) have "\<not> is_space c" by simp
        then show ?thesis by (blast dest: line_terminator_space)
      qed
    qed
    then show ?thesis by (simp add: list_all_iff)
  qed
  then show "dot_plus_end (join_chars (sort_key coll (bucket m k)))"
    using J(1) by (simp add: dot_plus_end_def cs_def)
  show "token_chars (line_tokens (join_chars (sort_key coll (bucket m k)))) = set (bucket m k)"
    using cs by (simp add: cs_def [symmetric] line_tokens_join_chars token_chars_singletons)
qed

lemma line_text_match:
  assumes k: "0 < k" "k < 1000000000000000000000" and ne: "bucket m k \<noteq> []"
    and ns: "\<forall>c \<in> set (bucket m k). \<not> is_space c"
  shows "match_line (line_text coll m k) = Some (join_chars (sort_key coll (bucket m k)))"
proof -
  define ds where "ds = digits_of (shortest (nat k))"
  have ds: "ds \<noteq> []" "\<forall>c \<in> set ds. is_digit c"
    by (auto simp: ds_def digits_of_nonempty dest: digits_of_digit)
  have lt: "line_text coll m k = ds @ hua # 9 # join_chars (sort_key coll (bucket m k))"
    using k by (simp add: line_text_def ds_def num_toString_pos)
  show ?thesis
    unfolding lt using ds line_text_props(6,7) [OF ne ns, of coll]
    by (rule match_line_label)
qed

lemma body_ends:
  assumes good: "\<And>k. k \<in> set ks \<Longrightarrow>
      line_text coll m k \<noteq> [] \<and> \<not> is_space (hd (line_text coll m k)) \<and>
      \<not> is_space (last (line_text coll m k))"
    and "ks \<noteq> []"
  shows "\<exists>B'. concat (map (body_line coll m) ks) = B' @ [10] \<and> B' \<noteq> [] \<and>
      \<not> is_space (hd B') \<and> \<not> is_space (last B')"
  using assms(2) good
proof (induction ks rule: list_nonempty_induct)
  case (single k)
  then have "line_text coll m k \<noteq> [] \<and> \<not> is_space (hd (line_text coll m k)) \<and>
      \<not> is_space (last (line_text coll m k))"
    by simp
  then show ?case
    by (simp add: body_line_text)
next
  case (cons k ks)
  from cons.prems have here: "line_text coll m k \<noteq> []" "\<not> is_space (hd (line_text coll m k))"
    by simp_all
  from cons.IH cons.prems obtain B' where B': "concat (map (body_line coll m) ks) = B' @ [10]"
    "B' \<noteq> []" "\<not> is_space (last B')"
    by auto
  have "concat (map (body_line coll m) (k # ks)) = (line_text coll m k @ 10 # B') @ [10]"
    by (simp add: B'(1) body_line_text)
  moreover have "hd (line_text coll m k @ 10 # B') = hd (line_text coll m k)"
    using here(1) by simp
  moreover have "last (line_text coll m k @ 10 # B') = last B'"
    using B'(2) by simp
  ultimately show ?case
    using here(2) B'(3) by (metis append_is_Nil_conv list.distinct(1))
qed

lemma format_shape:
  assumes P: "P \<noteq> [] \<Longrightarrow> \<not> is_space (hd P) \<and> \<not> is_space (last P)"
    and S: "S \<noteq> [] \<Longrightarrow> \<not> is_space (hd S) \<and> \<not> is_space (last S)"
    and B: "B' \<noteq> []" "\<not> is_space (hd B')" "\<not> is_space (last B')"
  shows "trim (P @ [10, 10] @ (B' @ [10]) @ [10, 10] @ S) @ [10] =
     (if P = [] then [] else P @ [10, 10]) @ (B' @ [10]) @
     (if S = [] then [] else [10, 10] @ S @ [10])"
proof -
  define A where "A = (if P = [] then [10, 10 :: nat] else [])"
  define C where "C = (if S = [] then [10, 10, 10 :: nat] else [])"
  define M where "M = (if P = [] then [] else P @ [10, 10]) @ B' @
      (if S = [] then [] else [10, 10, 10] @ S)"
  have X: "P @ [10, 10] @ (B' @ [10]) @ [10, 10] @ S = A @ M @ C"
    by (simp add: A_def C_def M_def)
  have sp: "\<forall>a \<in> set A. is_space a" "\<forall>c \<in> set C. is_space c"
    by (simp_all add: A_def C_def is_space_def)
  have Mn: "M \<noteq> []"
    using B(1) by (simp add: M_def)
  have "hd M = (if P = [] then hd B' else hd P)"
    using B(1) by (simp add: M_def)
  then have hM: "\<not> is_space (hd M)"
    using P B(2) by (simp split: if_splits)
  have "last M = (if S = [] then last B' else last S)"
    using B(1) by (simp add: M_def)
  then have lM: "\<not> is_space (last M)"
    using S B(3) by (simp split: if_splits)
  have "trim (A @ M @ C) = M"
    using sp Mn hM lM by (rule trim_sandwich)
  then show ?thesis
    unfolding X by (simp add: M_def)
qed

lemma last_body_lines:
  "ks \<noteq> [] \<Longrightarrow> concat (map (body_line coll m) ks) \<noteq> [] \<and>
   last (concat (map (body_line coll m) ks)) = 10"
proof (induction ks rule: rev_induct)
  case Nil
  then show ?case by simp
next
  case (snoc k ks)
  show ?case by (simp add: body_line_text)
qed

lemma body_line_position:
  assumes "k \<in> set ks"
  shows "\<exists>pre post. concat (map (body_line coll m) ks) = pre @ line_text coll m k @ 10 # post \<and>
      (pre = [] \<or> last pre = 10)"
proof -
  from assms obtain ks1 ks2 where ks: "ks = ks1 @ k # ks2"
    by (auto dest: split_list)
  define pre where "pre = concat (map (body_line coll m) ks1)"
  define post where "post = concat (map (body_line coll m) ks2)"
  have "concat (map (body_line coll m) ks) = pre @ line_text coll m k @ 10 # post"
    by (simp add: ks pre_def post_def body_line_text)
  moreover have "pre = [] \<or> last pre = 10"
    using last_body_lines [of ks1 coll m] by (cases "ks1 = []") (auto simp: pre_def)
  ultimately show ?thesis by blast
qed

lemma roundtrip_format:
  assumes good: "\<And>k. k \<in> set (sorted_keys m) \<Longrightarrow>
      bucket m k \<noteq> [] \<and> (\<forall>c \<in> set (bucket m k). \<not> is_space c)"
    and k: "k \<in> set (sorted_keys m)" and kb: "0 < k" "k < 1000000000000000000000"
    and c: "c \<in> set (bucket m k)"
  shows "c \<in> set (parseExistingChars (formatOutput coll raw m))"
proof -
  define ks where "ks = sorted_keys m"
  have props: "line_text coll m k' \<noteq> [] \<and> \<not> is_space (hd (line_text coll m k')) \<and>
      \<not> is_space (last (line_text coll m k'))" if "k' \<in> set ks" for k'
    using good [of k'] that line_text_props(1-3) [of m k' coll] by (simp add: ks_def)
  have ksn: "ks \<noteq> []"
    using k by (auto simp: ks_def)
  from body_ends [of ks coll m, OF props ksn]
  obtain B' where B': "concat (map (body_line coll m) ks) = B' @ [10]" "B' \<noteq> []"
    "\<not> is_space (hd B')" "\<not> is_space (last B')"
    by blast
  define P' where "P' = (if prefix_region raw = [] then [] else prefix_region raw @ [10, 10])"
  define T where "T = (if suffix_region raw = [] then [] else [10, 10] @ suffix_region raw @ [10])"
  have out: "formatOutput coll raw m = P' @ concat (map (body_line coll m) ks) @ T"
    unfolding formatOutput_def render_body_def ks_def [symmetric] B'(1) P'_def T_def
    using prefix_region_ends suffix_region_ends B'(2-4) by (intro format_shape) auto
  from body_line_position [of k ks coll m] k
  obtain pre post where pos: "concat (map (body_line coll m) ks) = pre @ line_text coll m k @ 10 # post"
    "pre = [] \<or> last pre = 10"
    by (auto simp: ks_def)
  have out': "formatOutput coll raw m = (P' @ pre) @ line_text coll m k @ 10 # (post @ T)"
    by (simp add: out pos(1))
  have start: "P' @ pre = [] \<or> last (P' @ pre) = 10"
    using pos(2) by (auto simp: P'_def)
  have gk: "bucket m k \<noteq> []" "\<forall>c \<in> set (bucket m k). \<not> is_space c"
    using good [OF k] by simp_all
  have lk: "10 \<notin> set (line_text coll m k)" "13 \<notin> set (line_text coll m k)"
    "token_chars (line_tokens (join_chars (sort_key coll (bucket m k)))) = set (bucket m k)"
    using line_text_props(4,5,8) [OF gk, of coll] by simp_all
  have ml: "match_line (line_text coll m k) = Some (join_chars (sort_key coll (bucket m k)))"
    using kb gk by (rule line_text_match)
  have "line_text coll m k \<in> set (split_lines (formatOutput coll raw m))"
    unfolding out' using start lk(1,2) by (rule line_in_split_lines)
  from parsed_line_chars [OF this ml, of "[]"]
  show ?thesis
    using c by (auto simp: lk(3) parseExistingChars_def)
qed

lemma collapse_ws_space: "c \<in> set (collapse_ws s) \<Longrightarrow> is_space c \<Longrightarrow> c = 32"
proof (induction s rule: collapse_ws.induct)
  case 1
  then show ?case by simp
next
  case (2 x xs)
  then show ?case
    by (cases "is_space x") auto
qed

lemma set_trim: "set (trim s) \<subseteq> set s"
  by (rule set_mono_sublist) (rule sublist_trim)

lemma split_on_nonempty: "split_on d s \<noteq> []"
  by (induction s) (auto split: list.splits)

lemma split_seps_nonempty: "split_seps s \<noteq> []"
  by (induction s rule: split_seps.induct) (auto split: list.splits)

lemma split_on_token: "tok \<in> set (split_on d s) \<Longrightarrow> d \<notin> set tok \<and> set tok \<subseteq> set s"
proof (induction s arbitrary: tok)
  case Nil
  then show ?case by simp
next
  case (Cons c s)
  show ?case
  proof (cases "c = d")
    case True
    with Cons show ?thesis by auto
  next
    case False
    obtain l ls where sp: "split_on d s = l # ls"
      using split_on_nonempty [of d s] by (cases "split_on d s") auto
    from Cons.IH [of l] sp have l: "d \<notin> set l \<and> set l \<subseteq> set s" by simp
    from Cons.prems False sp have "tok = c # l \<or> tok \<in> set ls" by simp
    then show ?thesis
    proof
      assume "tok = c # l"
      with l False show ?thesis by auto
    next
      assume "tok \<in> set ls"
      with Cons.IH [of tok] sp show ?thesis by auto
    qed
  qed
qed

lemma line_token_no_space: "[c] \<in> set (line_tokens J) \<Longrightarrow> \<not> is_space c"
proof
  assume tok: "[c] \<in> set (line_tokens J)" and sp: "is_space c"
  from tok have "32 \<notin> set [c] \<and> set [c] \<subseteq> set (trim (collapse_ws J))"
    unfolding line_tokens_def by (rule split_on_token)
  then have "c \<noteq> 32" "c \<in> set (collapse_ws J)"
    using set_trim [of "collapse_ws J"] by auto
  with sp collapse_ws_space [of c J] show False by simp
qed

lemma parse_line_no_space:
  "\<forall>c \<in> set s. \<not> is_space c \<Longrightarrow> \<forall>c \<in> set (parse_line l s). \<not> is_space c"
  by (auto simp: parse_line_def set_fold_add_token token_chars_def
      dest: line_token_no_space split: option.splits)

lemma fold_parse_line_no_space:
  "\<forall>c \<in> set s. \<not> is_space c \<Longrightarrow> \<forall>c \<in> set (fold parse_line ls s). \<not> is_space c"
proof (induction ls arbitrary: s)
  case Nil
  then show ?case by simp
next
  case (Cons l ls)
  from Cons.prems have "\<forall>c \<in> set (parse_line l s). \<not> is_space c"
    by (rule parse_line_no_space)
  then have "\<forall>c \<in> set (fold parse_line ls (parse_line l s)). \<not> is_space c"
    by (rule Cons.IH)
  then show ?case by simp
qed

lemma parseExistingChars_no_space: "\<forall>c \<in> set (parseExistingChars text). \<not> is_space c"
  unfolding parseExistingChars_def by (rule fold_parse_line_no_space) simp

lemma candidates_no_space: "\<forall>c \<in> set buildCandidateSet. \<not> is_space c"
proof -
  have "set buildCandidateSet = set heuristicCandidates"
    using set_add_all [of heuristicCandidates "[]"]
    by (simp add: buildCandidateSet_def add_all_def)
  then show ?thesis by (simp add: heuristicCandidates_def)
qed

lemma split_seps_token: "tok \<in> set (split_seps s) \<Longrightarrow> \<forall>c \<in> set tok. \<not> is_sep c"
proof (induction s arbitrary: tok rule: split_seps.induct)
  case 1
  then show ?case by simp
next
  case (2 c cs)
  show ?case
  proof (cases "is_sep c")
    case True
    with 2 show ?thesis by auto
  next
    case False
    obtain l ls where sp: "split_seps cs = l # ls"
      using split_seps_nonempty [of cs] by (cases "split_seps cs") auto
    from 2(2) [OF False, of l] sp have l: "\<forall>c \<in> set l. \<not> is_sep c" by simp
    from 2(3) False sp have "tok = c # l \<or> tok \<in> set ls" by simp
    then show ?thesis
    proof
      assume "tok = c # l"
      with l False show ?thesis by auto
    next
      assume "tok \<in> set ls"
      with 2(2) [OF False, of tok] sp show ?thesis by auto
    qed
  qed
qed

lemma include_chars_no_space: "c \<in> include_chars inc \<Longrightarrow> \<not> is_space c"
proof (cases inc)
  case None
  assume "c \<in> include_chars inc"
  with None show ?thesis by (simp add: include_chars_def)
next
  case (Some t)
  assume "c \<in> include_chars inc"
  with Some obtain tok where tok: "tok \<in> set (split_seps t)" "[c] = trim tok"
    by (auto simp: include_chars_def include_tokens_def token_chars_def)
  have "c \<in> set (trim tok)" using tok(2) by (metis list.set_intros(1))
  then have "c \<in> set tok" using set_trim [of tok] by auto
  with split_seps_token [OF tok(1)] show ?thesis
    by (auto simp: is_sep_def)
qed

lemma cjk_no_space: "isCJK c \<Longrightarrow> \<not> is_space c"
  by (auto simp: isCJK_def is_space_def)

lemma scan_item_chars:
  "scan_item f d it (stack, chars, log) = (stack', chars', log') \<Longrightarrow>
   set chars' \<subseteq> set chars \<union> {c. isCJK c}"
  by (cases it)
     (auto simp: scan_item_def set_fold_add_glyph split: if_splits font_reply.splits)

lemma fold_scan_chars:
  "fold (scan_item f d) items (stack, chars, log) = (stack', chars', log') \<Longrightarrow>
   set chars' \<subseteq> set chars \<union> {c. isCJK c}"
proof (induction items arbitrary: stack chars log)
  case Nil
  then show ?case by simp
next
  case (Cons it items)
  obtain s1 c1 l1 where st: "scan_item f d it (stack, chars, log) = (s1, c1, l1)"
    by (cases "scan_item f d it (stack, chars, log)") auto
  from Cons.prems st have "fold (scan_item f d) items (s1, c1, l1) = (stack', chars', log')"
    by simp
  from Cons.IH [OF this] scan_item_chars [OF st] show ?case by blast
qed

lemma walk_chars:
  "walk f stack chars log = Some (chars', log') \<Longrightarrow> set chars' \<subseteq> set chars \<union> {c. isCJK c}"
proof (induction f stack chars log rule: walk.induct)
  case (1 f chars log)
  then show ?case by simp
next
  case (2 f d stack chars log)
  then show ?case by simp
next
  case (3 f d items stack chars log)
  obtain s1 c1 l1 where st: "fold (scan_item f d) items (stack, chars, log) = (s1, c1, l1)"
    by (cases "fold (scan_item f d) items (stack, chars, log)") auto
  from "3.prems" st have "walk f s1 c1 l1 = Some (chars', log')"
    by simp
  from "3.IH" [OF st [symmetric] refl this] fold_scan_chars [OF st]
  show ?case by blast
qed

lemma main_union_no_space: "\<forall>c \<in> set (main_union src). \<not> is_space c"
proof
  fix c
  assume "c \<in> set (main_union src)"
  then consider "c \<in> set (parseExistingChars (content src))" | "c \<in> set buildCandidateSet"
    | inc where "c \<in> include_chars inc"
    | chars log where "extractCharsFromFonts (is_font src) (fontDir src) (fontListing src) =
        Some (chars, log)" "c \<in> set chars"
    by (auto simp: set_main_union split: option.splits)
  then show "\<not> is_space c"
  proof cases
    case 1
    then show ?thesis using parseExistingChars_no_space by blast
  next
    case 2
    then show ?thesis using candidates_no_space by blast
  next
    case 3
    then show ?thesis by (rule include_chars_no_space)
  next
    case 4
    from walk_chars [OF 4(1) [unfolded extractCharsFromFonts_def]] 4(2)
    show ?thesis by (auto dest: cjk_no_space)
  qed
qed

lemma select_is_group:
  "\<exists>u'. select lib coll limit u = groupByStroke lib u' \<and> set u' \<subseteq> set u"
proof (cases "limit < int (total_chars (groupByStroke lib u))")
  case True
  have "set (picked_chars coll limit (groupByStroke lib u)) \<subseteq>
      set (ordered_chars coll (groupByStroke lib u))"
    unfolding picked_chars_take by (rule set_take_subset)
  then have "set (picked_chars coll limit (groupByStroke lib u)) \<subseteq> set u"
    by (auto simp: set_ordered_group)
  moreover have "select lib coll limit u =
      groupByStroke lib (picked_chars coll limit (groupByStroke lib u))"
    using True by (simp add: select_def Let_def)
  ultimately show ?thesis by blast
next
  case False
  then have "select lib coll limit u = groupByStroke lib u"
    by (simp add: select_def Let_def)
  then show ?thesis by blast
qed

lemma group_good_keys:
  assumes ns: "\<forall>c \<in> set u. \<not> is_space c" and k: "k \<in> set (sorted_keys (groupByStroke lib u))"
  shows "bucket (groupByStroke lib u) k \<noteq> [] \<and>
     (\<forall>c \<in> set (bucket (groupByStroke lib u) k). \<not> is_space c)"
proof -
  from k obtain c where c: "k \<noteq> 0" "c \<in> set u" "strokeOf lib c = Some k"
    by (auto simp: set_sorted_keys keys_group)
  have "c \<in> set (bucket (groupByStroke lib u) k)"
    using c by (simp add: set_bucket_group)
  then have "bucket (groupByStroke lib u) k \<noteq> []"
    by auto
  moreover have "\<forall>c \<in> set (bucket (groupByStroke lib u) k). \<not> is_space c"
    using ns by (simp add: set_bucket_group)
  ultimately show ?thesis by blast
qed

lemma roundtrip_group:
  assumes ns: "\<forall>c \<in> set u. \<not> is_space c" and c: "c \<in> set (bucket (groupByStroke lib u) N)"
    and N: "N < 1000000000000000000000"
  shows "c \<in> set (parseExistingChars (formatOutput coll raw (groupByStroke lib u))) \<and>
     c \<in> set (bucket (groupByStroke lib
       (parseExistingChars (formatOutput coll raw (groupByStroke lib u)))) N)"
proof -
  from c have cN: "c \<in> set u" "strokeOf lib c = Some N" "N \<noteq> 0"
    by (simp_all add: set_bucket_group)
  then have key: "N \<in> set (sorted_keys (groupByStroke lib u))"
    by (auto simp: set_sorted_keys keys_group)
  have pos: "0 < N"
    using strokeOf_nonneg [OF cN(2)] cN(3) by simp
  have "c \<in> set (parseExistingChars (formatOutput coll raw (groupByStroke lib u)))"
    using group_good_keys [OF ns] key pos N c by (rule roundtrip_format)
  with cN show ?thesis
    by (simp add: set_bucket_group)
qed

lemmas format_eval =
  formatOutput_def render_body_def body_line_def sorted_keys_def bucket_def code_order_def
  print_eval hua_def suffix_anchor_def trim_def is_space_def

text \<open>
  C6, as stated, fails at a stroke count of \<open>10\<^sup>2\<^sup>1\<close>: the body line of that bucket
  starts \<^verbatim>\<open>1e+21\<close>, the line pattern of the loader wants digits up to the stroke marker,
  so the line is not read and the character of the bucket is not read back.
\<close>

theorem C6_exponent_line_lost:
  "select lib_huge code_order 5 [19968] = [(1000000000000000000000, [19968])] \<and>
   19968 \<in> set (bucket (select lib_huge code_order 5 [19968]) 1000000000000000000000) \<and>
   formatOutput code_order doc_sample (select lib_huge code_order 5 [19968]) =
     [104, 10, 10, 49, 101, 43, 50, 49, 30011, 9, 19968, 10, 10, 10] @ suffix_anchor @ [10] \<and>
   parseExistingChars (formatOutput code_order doc_sample (select lib_huge code_order 5 [19968]))
     = [] \<and>
   19968 \<notin> set (parseExistingChars
     (formatOutput code_order doc_sample (select lib_huge code_order 5 [19968])))"
proof -
  have s: "select lib_huge code_order 5 [19968] = [(1000000000000000000000, [19968])]"
    by (simp add: eval_defs lib_huge_def)
  have f: "formatOutput code_order doc_sample [(1000000000000000000000, [19968])] =
      [104, 10, 10, 49, 101, 43, 50, 49, 30011, 9, 19968, 10, 10, 10] @ suffix_anchor @ [10]"
    by (simp add: format_eval prefix_region_sample suffix_region_sample)
  have p: "parseExistingChars
      ([104, 10, 10, 49, 101, 43, 50, 49, 30011, 9, 19968, 10, 10, 10] @ suffix_anchor @ [10]) = []"
    by (simp add: suffix_anchor_def parse_defs)
  show ?thesis
    unfolding s f p by (simp add: bucket_def)
qed

text \<open>
  C6, amended: a character of bucket \<open>N\<close> of the final stroke map, with an integer stroke
  count \<open>N\<close> below \<open>10\<^sup>2\<^sup>1\<close>, is among the characters the loader reads back from the
  formatted document, and grouping those characters again puts it in bucket \<open>N\<close>. It
  holds for the union \<^verbatim>\<open>main\<close> builds, under any limit, and for every union without white
  space characters (which the union of \<^verbatim>\<open>main\<close> is), whatever the baseline document and
  whatever the other buckets.
\<close>

theorem C6_round_trip:
  "((\<forall>x \<in> set u. \<not> is_space x) \<and> c \<in> set (bucket (select lib coll limit u) N) \<and>
      N < 1000000000000000000000 \<longrightarrow>
      c \<in> set (parseExistingChars (formatOutput coll raw (select lib coll limit u))) \<and>
      c \<in> set (bucket (groupByStroke lib
        (parseExistingChars (formatOutput coll raw (select lib coll limit u)))) N)) \<and>
   (c \<in> set (bucket (select lib coll limit (main_union src)) N) \<and>
      N < 1000000000000000000000 \<longrightarrow>
      c \<in> set (parseExistingChars (main_output lib coll limit src)) \<and>
      c \<in> set (bucket (groupByStroke lib
        (parseExistingChars (main_output lib coll limit src))) N))"
proof -
  have general: "c \<in> set (parseExistingChars (formatOutput coll raw (select lib coll limit v))) \<and>
      c \<in> set (bucket (groupByStroke lib
        (parseExistingChars (formatOutput coll raw (select lib coll limit v)))) N)"
    if ns: "\<forall>x \<in> set v. \<not> is_space x" and c: "c \<in> set (bucket (select lib coll limit v) N)"
      and N: "N < 1000000000000000000000"
    for v raw
  proof -
    obtain u' where u': "select lib coll limit v = groupByStroke lib u'" "set u' \<subseteq> set v"
      using select_is_group by blast
    from ns u'(2) have "\<forall>x \<in> set u'. \<not> is_space x" by blast
    moreover from c have "c \<in> set (bucket (groupByStroke lib u') N)"
      by (simp add: u'(1))
    ultimately show ?thesis
      unfolding u'(1) using N by (rule roundtrip_group)
  qed
  have "c \<in> set (parseExistingChars (main_output lib coll limit src)) \<and>
      c \<in> set (bucket (groupByStroke lib
        (parseExistingChars (main_output lib coll limit src))) N)"
    if "c \<in> set (bucket (select lib coll limit (main_union src)) N)"
      and "N < 1000000000000000000000"
    unfolding main_output_def using main_union_no_space that by (rule general)
  with general [of u raw] show ?thesis by blast
qed

lemma select_sample: "select lib_basic code_order 2 [20108, 19968, 20057] = [(1, [19968, 20057])]"
  by (simp add: eval_defs lib_basic_def)

lemma format_sample:
  "formatOutput code_order doc_sample [(1, [19968, 20057])] =
     [104, 10, 10, 49, 30011, 9, 19968, 32, 20057, 10, 10, 10] @ suffix_anchor @ [10]"
  by (simp add: format_eval prefix_region_sample suffix_region_sample)

lemma parse_format_sample:
  "parseExistingChars ([104, 10, 10, 49, 30011, 9, 19968, 32, 20057, 10, 10, 10]
     @ suffix_anchor @ [10]) = [19968, 20057]"
  by (simp add: suffix_anchor_def parse_defs)

lemma classified_basic: "classified lib_basic c \<Longrightarrow> c \<in> {19968, 20057, 20108}"
  by (auto simp: classified_def strokeOf_def lib_basic_def order_first_length_def
      split: if_splits)

lemma select_src_one:
  "select lib_basic code_order 3 (main_union src_one) = groupByStroke lib_basic (main_union src_one)"
proof -
  have "{c \<in> set (main_union src_one). classified lib_basic c} \<subseteq> {19968, 20057, 20108}"
    using classified_basic by blast
  then have "card {c \<in> set (main_union src_one). classified lib_basic c} \<le>
      card {19968, 20057, 20108 :: nat}"
    by (intro card_mono) simp_all
  then have "total_chars (groupByStroke lib_basic (main_union src_one)) \<le> 3"
    by (simp add: total_group)
  then show ?thesis
    by (simp add: select_def Let_def)
qed

lemma bucket_src_one:
  "19968 \<in> set (bucket (select lib_basic code_order 3 (main_union src_one)) 1)"
proof -
  have "19968 \<in> set (main_union src_one)"
    by (simp add: set_main_union parse_src_one)
  moreover have "strokeOf lib_basic 19968 = Some 1"
    by (simp add: strokeOf_def lib_basic_def)
  ultimately show ?thesis
    by (simp add: select_src_one set_bucket_group)
qed

theorem C6_round_trip_witness:
  "list_all (\<lambda>x. \<not> is_space x) [20108, 19968, 20057] \<and>
   (1::int) < 1000000000000000000000 \<and>
   select lib_basic code_order 2 [20108, 19968, 20057] = [(1, [19968, 20057])] \<and>
   parseExistingChars (formatOutput code_order doc_sample
     (select lib_basic code_order 2 [20108, 19968, 20057])) = [19968, 20057] \<and>
   19968 \<in> set (bucket (groupByStroke lib_basic (parseExistingChars (formatOutput code_order
     doc_sample (select lib_basic code_order 2 [20108, 19968, 20057])))) 1) \<and>
   19968 \<in> set (bucket (select lib_basic code_order 3 (main_union src_one)) 1) \<and>
   19968 \<in> set (parseExistingChars (main_output lib_basic code_order 3 src_one)) \<and>
   19968 \<in> set (bucket (groupByStroke lib_basic
     (parseExistingChars (main_output lib_basic code_order 3 src_one))) 1)"
proof -
  have ns: "\<forall>x \<in> set [20108, 19968, 20057]. \<not> is_space x"
    by (simp add: is_space_def)
  have N: "(1::int) < 1000000000000000000000"
    by simp
  have b: "19968 \<in> set (bucket (select lib_basic code_order 2 [20108, 19968, 20057]) 1)"
    by (simp add: select_sample bucket_def)
  have p: "parseExistingChars (formatOutput code_order doc_sample
     (select lib_basic code_order 2 [20108, 19968, 20057])) = [19968, 20057]"
    by (simp only: select_sample format_sample parse_format_sample)
  note rt = C6_round_trip [of "[20108, 19968, 20057]" 19968 lib_basic code_order _ 1 doc_sample src_one]
  from rt [of 2] ns b N
  have one: "19968 \<in> set (bucket (groupByStroke lib_basic (parseExistingChars (formatOutput
      code_order doc_sample (select lib_basic code_order 2 [20108, 19968, 20057])))) 1)"
    by blast
  from rt [of 3] bucket_src_one N
  have two: "19968 \<in> set (parseExistingChars (main_output lib_basic code_order 3 src_one)) \<and>
    19968 \<in> set (bucket (groupByStroke lib_basic
      (parseExistingChars (main_output lib_basic code_order 3 src_one))) 1)"
    by blast
  from ns select_sample p one bucket_src_one two show ?thesis
    by (simp add: list_all_iff)
qed

end
